theory Spec2Isabelle
  imports Main "HOL-Library.Word" "HOL-Library.Multiset"
begin

section \<open>Data model of \<^verbatim>\<open>src/main.c\<close>\<close>

text \<open>
  A C \<^verbatim>\<open>int\<close> has 32 bits; the model keeps its value as an integer. An addition or a
  subtraction whose result leaves the range of \<^verbatim>\<open>int\<close> is undefined in C; compilers for
  two's-complement machines keep the low 32 bits of the result, and so does the model:
  \<open>add_c\<close> and \<open>sub_c\<close> are \<^verbatim>\<open>+\<close> and \<^verbatim>\<open>-\<close> on \<^verbatim>\<open>int\<close>, and \<open>c_int\<close> maps an integer to
  the \<^verbatim>\<open>int\<close> with the same low 32 bits. An array index that the code uses only after
  checking that it is not negative is a natural number. A \<^verbatim>\<open>double\<close> is only stored and
  copied by the modelled functions, so it is kept as its 64-bit pattern.
\<close>

definition MAX_c :: nat where
  "MAX_c = 50"

definition INF_c :: int where
  "INF_c = 999999"

definition INT_MAX_c :: int where
  "INT_MAX_c = 2147483647"

definition INT_MIN_c :: int where
  "INT_MIN_c = - 2147483648"

definition c_int :: "int \<Rightarrow> int" where
  "c_int x = (x + 2147483648) mod 4294967296 - 2147483648"

definition add_c :: "int \<Rightarrow> int \<Rightarrow> int" where
  "add_c a b = c_int (a + b)"

definition sub_c :: "int \<Rightarrow> int \<Rightarrow> int" where
  "sub_c a b = c_int (a - b)"

type_synonym double = "64 word"

record TrafficLight =
  red :: int
  green :: int
  yellow :: int

text \<open>
  The linked list \<^verbatim>\<open>Edge *\<close> of a junction is the list of its nodes from the head on;
  \<^verbatim>\<open>NULL\<close> is the empty list.
\<close>

record Edge =
  to :: nat
  weight :: int

record Graph =
  vertices :: int
  adj :: "Edge list list"
  lights :: "TrafficLight list"
  names :: "string list"
  lat :: "double list"
  lon :: "double list"

text \<open>
  \<open>nv g\<close> is the number of rounds of a loop \<^verbatim>\<open>for (i = 0; i < g->vertices; i++)\<close>: the
  junction count, or 0 when the field is negative.
\<close>

definition nv :: "Graph \<Rightarrow> nat" where
  "nv g = nat (vertices g)"

text \<open>
  A value of the C type \<^verbatim>\<open>Graph\<close> as \<^verbatim>\<open>main\<close> builds it: every array has \<^verbatim>\<open>MAX\<close> slots,
  the junction count is between 0 and \<^verbatim>\<open>MAX\<close> (\<^verbatim>\<open>main\<close> checks it before it fills the
  graph), and every edge node points to an existing junction (\<^verbatim>\<open>addEdge\<close> checks it before
  it allocates). On such a graph every array access of the functions below is within bounds;
  on another one the C code reads or writes outside its arrays.
\<close>

definition wf_graph :: "Graph \<Rightarrow> bool" where
  "wf_graph g \<longleftrightarrow>
     0 \<le> vertices g \<and> vertices g \<le> int MAX_c \<and> length (adj g) = MAX_c \<and>
     length (lights g) = MAX_c \<and> length (names g) = MAX_c \<and> length (lat g) = MAX_c \<and>
     length (lon g) = MAX_c \<and>
     (\<forall>u < nv g. \<forall>e \<in> set (adj g ! u). to e < nv g)"

section \<open>Graph store\<close>

text \<open>
  \<^verbatim>\<open>initGraph\<close> resets the junction count, the adjacency lists and the coordinates; it
  leaves the names and the signal phases as they are.
\<close>

definition initGraph :: "Graph \<Rightarrow> Graph" where
  "initGraph g =
     g\<lparr>vertices := 0, adj := replicate MAX_c [], lat := replicate MAX_c 0, lon := replicate MAX_c 0\<rparr>"

definition newEdge :: "nat \<Rightarrow> int \<Rightarrow> Edge" where
  "newEdge t w = \<lparr>to = t, weight = w\<rparr>"

datatype message = InvalidEdgeIndices int int

text \<open>
  \<^verbatim>\<open>addEdge\<close> returns nothing; the model returns what it printed (if anything) and the
  graph it leaves behind. The second insertion reads \<^verbatim>\<open>g->adj[v]\<close> after the first one
  has been stored, which matters when \<^verbatim>\<open>u == v\<close>.
\<close>

definition addEdge :: "Graph \<Rightarrow> int \<Rightarrow> int \<Rightarrow> int \<Rightarrow> message option \<times> Graph" where
  "addEdge g u v w =
     (if u < 0 \<or> u \<ge> vertices g \<or> v < 0 \<or> v \<ge> vertices g
      then (Some (InvalidEdgeIndices u v), g)
      else
        let e1 = newEdge (nat v) w;
            g1 = g\<lparr>adj := (adj g)[nat u := e1 # (adj g ! nat u)]\<rparr>;
            e2 = newEdge (nat u) w;
            g2 = g1\<lparr>adj := (adj g1)[nat v := e2 # (adj g1 ! nat v)]\<rparr>
        in (None, g2))"

section \<open>Signal model\<close>

text \<open>
  \<open>c_rem\<close> is the remainder of C's \<^verbatim>\<open>%\<close>, which truncates the quotient towards zero. The
  cycle is the \<^verbatim>\<open>int\<close> sum of the three durations, added from left to right, and the
  remaining time is an \<^verbatim>\<open>int\<close> difference.
\<close>

definition c_rem :: "int \<Rightarrow> int \<Rightarrow> int" where
  "c_rem a b = sgn a * (\<bar>a\<bar> mod \<bar>b\<bar>)"

definition getWaitingTime :: "TrafficLight \<Rightarrow> int \<Rightarrow> int" where
  "getWaitingTime light arrivalTime =
     (let cycle = add_c (add_c (red light) (green light)) (yellow light) in
      if cycle \<le> 0 then 0
      else
        let t = c_rem arrivalTime cycle in
        if t < green light then 0
        else sub_c cycle t)"

section \<open>Indexed min-heap\<close>

text \<open>
  The fields \<^verbatim>\<open>v\<close> and \<^verbatim>\<open>dist\<close> of a \<^verbatim>\<open>HeapNode\<close> and \<^verbatim>\<open>size\<close> of a \<^verbatim>\<open>MinHeap\<close> carry a
  suffix here. A slot of \<^verbatim>\<open>arr\<close> is \<open>None\<close> for \<^verbatim>\<open>NULL\<close> and otherwise holds the node it
  points to: every node is allocated once and pointed to by one slot below \<^verbatim>\<open>size\<close>, and
  the slots from \<^verbatim>\<open>size\<close> on keep stale pointers that the code never follows again. The
  lists hold the slots that \<^verbatim>\<open>createMinHeap\<close> initialises. Reading a slot outside them, or
  following \<^verbatim>\<open>NULL\<close>, is undefined in C; the invariant \<open>winv\<close> below excludes both.
\<close>

record HeapNode =
  v_node :: nat
  dist_node :: int

record MinHeap =
  size_h :: nat
  pos :: "int list"
  arr :: "HeapNode option list"

definition createMinHeap :: "nat \<Rightarrow> MinHeap" where
  "createMinHeap capacity =
     \<lparr>size_h = 0, pos = replicate capacity (- 1), arr = replicate capacity None\<rparr>"

definition node_at :: "MinHeap \<Rightarrow> nat \<Rightarrow> HeapNode" where
  "node_at h i = the (arr h ! i)"

definition swapHeapNode :: "HeapNode option list \<Rightarrow> nat \<Rightarrow> nat \<Rightarrow> HeapNode option list" where
  "swapHeapNode a i j = (let t = a ! i in (a[i := a ! j])[j := t])"

text \<open>
  \<open>smallest_of\<close> is the first half of \<^verbatim>\<open>minHeapify\<close>: the slot with the smallest distance
  among \<open>idx\<close> and its children, the left child winning a tie with the right one.
\<close>

definition smallest_of :: "MinHeap \<Rightarrow> nat \<Rightarrow> nat" where
  "smallest_of h idx =
     (let smallest = idx;
          left = 2 * idx + 1;
          right = 2 * idx + 2;
          smallest = (if left < size_h h \<and> dist_node (node_at h left) < dist_node (node_at h smallest)
                      then left else smallest);
          smallest = (if right < size_h h \<and> dist_node (node_at h right) < dist_node (node_at h smallest)
                      then right else smallest)
      in smallest)"

lemma smallest_of_cases:
  "smallest_of h idx = idx \<or>
   (smallest_of h idx = 2 * idx + 1 \<and> 2 * idx + 1 < size_h h) \<or>
   (smallest_of h idx = 2 * idx + 2 \<and> 2 * idx + 2 < size_h h)"
  by (simp add: smallest_of_def Let_def)

function minHeapify :: "MinHeap \<Rightarrow> nat \<Rightarrow> MinHeap" where
  "minHeapify h idx =
     (let smallest = smallest_of h idx in
      if smallest \<noteq> idx then
        let h1 = h\<lparr>pos := (pos h)[v_node (node_at h smallest) := int idx]\<rparr>;
            h2 = h1\<lparr>pos := (pos h1)[v_node (node_at h1 idx) := int smallest]\<rparr>;
            h3 = h2\<lparr>arr := swapHeapNode (arr h2) smallest idx\<rparr>
        in minHeapify h3 smallest
      else h)"
  by pat_completeness auto
termination
proof (relation "measure (\<lambda>(h, idx). size_h h - idx)")
  show "wf (measure (\<lambda>(h, idx). size_h h - idx))"
    by simp
next
  fix h :: MinHeap and idx x xa xb xc
  assume "x = smallest_of h idx" "x \<noteq> idx"
    and "xa = h\<lparr>pos := (pos h)[v_node (node_at h x) := int idx]\<rparr>"
    and "xb = xa\<lparr>pos := (pos xa)[v_node (node_at xa idx) := int x]\<rparr>"
    and "xc = xb\<lparr>arr := swapHeapNode (arr xb) x idx\<rparr>"
  then show "((xc, x), h, idx) \<in> measure (\<lambda>(h, idx). size_h h - idx)"
    using smallest_of_cases [of h idx] by auto
qed

declare minHeapify.simps [simp del]

definition isEmpty :: "MinHeap \<Rightarrow> bool" where
  "isEmpty h \<longleftrightarrow> size_h h = 0"

definition extractMin :: "MinHeap \<Rightarrow> HeapNode option \<times> MinHeap" where
  "extractMin h =
     (if isEmpty h then (None, h)
      else
        let root = arr h ! 0;
            lastNode = arr h ! (size_h h - 1);
            h1 = h\<lparr>arr := (arr h)[0 := lastNode]\<rparr>;
            h2 = h1\<lparr>pos := (pos h1)[v_node (the lastNode) := 0]\<rparr>;
            h3 = h2\<lparr>pos := (pos h2)[v_node (the root) := - 1]\<rparr>;
            h4 = h3\<lparr>size_h := size_h h3 - 1\<rparr>
        in (root, minHeapify h4 0))"

text \<open>The \<^verbatim>\<open>while\<close> loop of \<^verbatim>\<open>decreaseKey\<close>, from slot \<open>i\<close> towards the root.\<close>

function decreaseKey_loop :: "MinHeap \<Rightarrow> nat \<Rightarrow> MinHeap" where
  "decreaseKey_loop h i =
     (if i \<noteq> 0 \<and> dist_node (node_at h i) < dist_node (node_at h ((i - 1) div 2)) then
        let h1 = h\<lparr>pos := (pos h)[v_node (node_at h i) := int ((i - 1) div 2)]\<rparr>;
            h2 = h1\<lparr>pos := (pos h1)[v_node (node_at h1 ((i - 1) div 2)) := int i]\<rparr>;
            h3 = h2\<lparr>arr := swapHeapNode (arr h2) i ((i - 1) div 2)\<rparr>
        in decreaseKey_loop h3 ((i - 1) div 2)
      else h)"
  by pat_completeness auto
termination
  by (relation "measure (\<lambda>(h, i). i)") auto

declare decreaseKey_loop.simps [simp del]

text \<open>The assignment \<^verbatim>\<open>h->arr[i]->dist = d\<close>.\<close>

definition set_dist :: "MinHeap \<Rightarrow> nat \<Rightarrow> int \<Rightarrow> MinHeap" where
  "set_dist h i d = h\<lparr>arr := (arr h)[i := Some ((node_at h i)\<lparr>dist_node := d\<rparr>)]\<rparr>"

definition decreaseKey :: "MinHeap \<Rightarrow> nat \<Rightarrow> int \<Rightarrow> MinHeap" where
  "decreaseKey h v d =
     (let i = pos h ! v in
      if i = - 1 then h
      else
        let h1 = set_dist h (nat i) d
        in decreaseKey_loop h1 (nat i))"

definition isInMinHeap :: "MinHeap \<Rightarrow> nat \<Rightarrow> bool" where
  "isInMinHeap h v \<longleftrightarrow> pos h ! v \<noteq> - 1"

section \<open>Time-dependent relaxation engine\<close>

text \<open>
  The local arrays \<^verbatim>\<open>dist\<close> and \<^verbatim>\<open>parent\<close> of \<^verbatim>\<open>dijkstra\<close> and its heap form the state of
  the search; the lists hold the slots that the function initialises, one for each junction.
\<close>

record SearchState =
  dist_s :: "int list"
  parent_s :: "int list"
  heap_s :: MinHeap

text \<open>The body of the loop that fills the heap: a new node for junction \<open>v\<close> at the sentinel distance.\<close>

definition push_node :: "MinHeap \<Rightarrow> nat \<Rightarrow> MinHeap" where
  "push_node h v =
     (let hn = \<lparr>v_node = v, dist_node = INF_c\<rparr>;
          h1 = h\<lparr>arr := (arr h)[size_h h := Some hn]\<rparr>;
          h2 = h1\<lparr>pos := (pos h1)[v := int (size_h h1)]\<rparr>
      in h2\<lparr>size_h := size_h h2 + 1\<rparr>)"

text \<open>
  The body of the loop over the adjacency list of the junction \<open>u\<close> just extracted. The
  arrival time and the candidate distance \<^verbatim>\<open>newDist\<close> are \<^verbatim>\<open>int\<close> sums.
\<close>

definition relax :: "Graph \<Rightarrow> nat \<Rightarrow> SearchState \<Rightarrow> Edge \<Rightarrow> SearchState" where
  "relax g u st p =
     (let v = to p;
          w = weight p
      in
        if pos (heap_s st) ! v \<noteq> - 1 then
          let arrival = add_c (dist_s st ! u) w;
              wait = getWaitingTime (lights g ! v) arrival;
              newDist = add_c (add_c (dist_s st ! u) w) wait
          in
            if newDist < dist_s st ! v then
              let st1 = st\<lparr>dist_s := (dist_s st)[v := newDist]\<rparr>;
                  st2 = st1\<lparr>parent_s := (parent_s st1)[v := int u]\<rparr>;
                  idx = pos (heap_s st2) ! v
              in
                if idx \<noteq> - 1 \<and> arr (heap_s st2) ! nat idx \<noteq> None then
                  let h1 = set_dist (heap_s st2) (nat idx) newDist
                  in st2\<lparr>heap_s := decreaseKey h1 v newDist\<rparr>
                else st2
            else st
        else st)"

text \<open>
  The main loop ends because every round removes an entry from the heap and no relaxation
  adds one.
\<close>

lemma minHeapify_size [simp]: "size_h (minHeapify h idx) = size_h h"
proof (induction h idx rule: minHeapify.induct)
  case (1 h idx)
  show ?case
  proof (cases "smallest_of h idx = idx")
    case True
    then show ?thesis by (subst minHeapify.simps) simp
  next
    case False
    then show ?thesis
      using "1.IH" [OF refl False refl refl refl]
      by (subst minHeapify.simps) (simp add: Let_def)
  qed
qed

lemma decreaseKey_loop_size [simp]: "size_h (decreaseKey_loop h i) = size_h h"
proof (induction h i rule: decreaseKey_loop.induct)
  case (1 h i)
  show ?case
  proof (cases "i \<noteq> 0 \<and> dist_node (node_at h i) < dist_node (node_at h ((i - 1) div 2))")
    case False
    then show ?thesis by (subst decreaseKey_loop.simps) auto
  next
    case True
    then show ?thesis
      using "1.IH" [OF True refl refl refl]
      by (subst decreaseKey_loop.simps) (simp add: Let_def)
  qed
qed

lemma decreaseKey_size [simp]: "size_h (decreaseKey h v d) = size_h h"
  by (simp add: decreaseKey_def Let_def set_dist_def)

lemma extractMin_size: "size_h (snd (extractMin h)) = size_h h - 1"
  by (simp add: extractMin_def isEmpty_def Let_def)

lemma extractMin_size_less:
  assumes "0 < size_h h" "(r, h') = extractMin h"
  shows "size_h h' < size_h h"
proof -
  have "h' = snd (extractMin h)"
    using assms(2) by (metis snd_conv)
  then show ?thesis
    using assms(1) by (simp add: extractMin_size)
qed

lemma relax_size [simp]: "size_h (heap_s (relax g u st p)) = size_h (heap_s st)"
  by (simp add: relax_def Let_def set_dist_def)

lemma foldl_relax_size [simp]:
  "size_h (heap_s (foldl (relax g u) st es)) = size_h (heap_s st)"
  by (induction es arbitrary: st) simp_all

function dijkstra_loop :: "Graph \<Rightarrow> nat \<Rightarrow> SearchState \<Rightarrow> SearchState" where
  "dijkstra_loop g dest st =
     (if isEmpty (heap_s st) then st
      else
        case extractMin (heap_s st) of
          (None, h') \<Rightarrow> st\<lparr>heap_s := h'\<rparr>
        | (Some hn, h') \<Rightarrow>
            let st1 = st\<lparr>heap_s := h'\<rparr>;
                u = v_node hn;
                du = dist_node hn
            in
              if du = INF_c then st1
              else if u = dest then st1
              else dijkstra_loop g dest (foldl (relax g u) st1 (adj g ! u)))"
  by pat_completeness auto
termination
  by (relation "measure (\<lambda>(g, dest, st). size_h (heap_s st))")
    (auto simp: isEmpty_def intro: extractMin_size_less)

declare dijkstra_loop.simps [simp del]

text \<open>
  The candidate distances of a run. \<open>new_dist g st u p\<close> is the value of \<^verbatim>\<open>newDist\<close> that
  the loop body computes for the entry \<open>p\<close> of junction \<open>u\<close> in the state \<open>st\<close>.
  \<open>relax_candidates\<close> lists, for one pass over an adjacency list, every junction for which
  the body computed a candidate, with that candidate (it computes one when the junction is
  still in the heap); \<open>dijkstra_candidates\<close> does so for the main loop, round after round.
\<close>

definition new_dist :: "Graph \<Rightarrow> SearchState \<Rightarrow> nat \<Rightarrow> Edge \<Rightarrow> int" where
  "new_dist g st u p =
     add_c (add_c (dist_s st ! u) (weight p))
       (getWaitingTime (lights g ! to p) (add_c (dist_s st ! u) (weight p)))"

fun relax_candidates :: "Graph \<Rightarrow> nat \<Rightarrow> SearchState \<Rightarrow> Edge list \<Rightarrow> (nat \<times> int) list" where
  "relax_candidates g u st [] = []"
| "relax_candidates g u st (p # ps) =
     (if pos (heap_s st) ! to p \<noteq> - 1 then [(to p, new_dist g st u p)] else [])
     @ relax_candidates g u (relax g u st p) ps"

function dijkstra_candidates :: "Graph \<Rightarrow> nat \<Rightarrow> SearchState \<Rightarrow> (nat \<times> int) list" where
  "dijkstra_candidates g dest st =
     (if isEmpty (heap_s st) then []
      else
        case extractMin (heap_s st) of
          (None, h') \<Rightarrow> []
        | (Some hn, h') \<Rightarrow>
            let st1 = st\<lparr>heap_s := h'\<rparr>;
                u = v_node hn;
                du = dist_node hn
            in
              if du = INF_c then []
              else if u = dest then []
              else relax_candidates g u st1 (adj g ! u)
                   @ dijkstra_candidates g dest (foldl (relax g u) st1 (adj g ! u)))"
  by pat_completeness auto
termination
  by (relation "measure (\<lambda>(g, dest, st). size_h (heap_s st))")
    (auto simp: isEmpty_def intro: extractMin_size_less)

declare dijkstra_candidates.simps [simp del]

text \<open>
  The loop that follows the \<^verbatim>\<open>parent\<close> links from the destination and appends each junction
  to \<^verbatim>\<open>path\<close>. It ends when it reaches \<open>-1\<close>; a cycle of links would keep it running
  (and writing beyond \<^verbatim>\<open>path\<close>), which is the value \<open>None\<close>.
\<close>

partial_function (option) collect_path :: "int list \<Rightarrow> int \<Rightarrow> int list \<Rightarrow> int list option" where
  "collect_path parent v path =
     (if v = - 1 then Some path else collect_path parent (parent ! nat v) (path @ [v]))"

declare collect_path.simps [code]

text \<open>
  \<^verbatim>\<open>exportLeafletMap\<close> opens the file for writing. When \<^verbatim>\<open>fopen\<close> fails it reports the error
  and returns without writing, which is the value \<open>None\<close>; the argument \<open>fp\<close> says whether
  \<^verbatim>\<open>fopen\<close> returned a stream. Otherwise it writes a document whose text is fixed except for
  three arrays: the junctions with their escaped names and coordinates, the roads with
  \<open>u < v\<close>, and the first \<^verbatim>\<open>path_len\<close> entries of \<^verbatim>\<open>path\<close>, the highlighted route. The
  document is modelled by these three arrays.
\<close>

record MapDoc =
  nodes :: "(nat \<times> string \<times> double \<times> double) list"
  edges :: "(nat \<times> nat \<times> int) list"
  sp :: "int list"

definition js_escape_name :: "string \<Rightarrow> nat \<Rightarrow> string" where
  "js_escape_name src dstsz =
     map (\<lambda>c. if c = CHR 0x22 \<or> c = CHR 0x5C then CHR 0x27 else c) (take (dstsz - 1) src)"

definition exportLeafletMap :: "bool \<Rightarrow> Graph \<Rightarrow> int list \<Rightarrow> int \<Rightarrow> MapDoc option" where
  "exportLeafletMap fp g path path_len =
     (if \<not> fp then None
      else
        Some \<lparr>nodes = map (\<lambda>i. (i, js_escape_name (names g ! i) 64, lat g ! i, lon g ! i)) [0..<nv g],
              edges = concat (map (\<lambda>u. map (\<lambda>p. (u, to p, weight p))
                                           (filter (\<lambda>p. u < to p) (adj g ! u))) [0..<nv g]),
              sp = map (\<lambda>i. path ! i) [0..<nat path_len]\<rparr>)"

text \<open>
  What a call of \<^verbatim>\<open>dijkstra\<close> reports: the indices are invalid; or no path was found, and
  the map is exported; or the shortest time, followed by the route and the exported map
  once the route has been collected. The export is \<open>None\<close> when its file could not be
  opened.
\<close>

datatype Outcome =
    InvalidIndices
  | NoPathFound "MapDoc option"
  | ShortestTime int "(int list \<times> MapDoc option) option"

text \<open>The state before the main loop, for a source that passed the range check.\<close>

definition dijkstra_init :: "Graph \<Rightarrow> nat \<Rightarrow> SearchState" where
  "dijkstra_init g src =
     (let n = nv g;
          dist = replicate n INF_c;
          parent = replicate n (- 1);
          h = createMinHeap n;
          h = foldl push_node h [0..<n];
          dist = dist[src := 0];
          h = set_dist h (nat (pos h ! src)) 0;
          h = decreaseKey h src 0
      in \<lparr>dist_s = dist, parent_s = parent, heap_s = h\<rparr>)"

definition dijkstra :: "bool \<Rightarrow> Graph \<Rightarrow> int \<Rightarrow> int \<Rightarrow> Outcome" where
  "dijkstra fp g src dest =
     (let n = vertices g in
      if src < 0 \<or> src \<ge> n \<or> dest < 0 \<or> dest \<ge> n then InvalidIndices
      else
        let st = dijkstra_loop g (nat dest) (dijkstra_init g (nat src));
            dist = dist_s st;
            parent = parent_s st
        in
          if dist ! nat dest = INF_c then NoPathFound (exportLeafletMap fp g [0] 0)
          else
            ShortestTime (dist ! nat dest)
              (case collect_path parent dest [] of
                 None \<Rightarrow> None
               | Some path \<Rightarrow>
                   Some (rev path, exportLeafletMap fp g (rev path) (int (length path)))))"

section \<open>Snapshot save and load\<close>

text \<open>
  A file is the text it holds. \<^verbatim>\<open>fprintf\<close> appends to it and \<^verbatim>\<open>fscanf\<close> consumes a prefix of
  what is left, so a read position is the rest of the text. The C library conversions that
  the two functions use are modelled on characters: \<^verbatim>\<open>%d\<close> prints a decimal numeral, with
  a minus sign for a negative value, and reads one after skipping white space; \<^verbatim>\<open>%19s\<close>
  skips white space and reads up to 19 characters that are not white space; a conversion
  that fails leaves the text it could not read. Each scanning function returns the value, if
  the conversion succeeded, and the rest of the text.

  A numeral that does not fit an \<^verbatim>\<open>int\<close> has no defined conversion in C. The model follows
  the GNU C library, which converts the digits with \<^verbatim>\<open>strtol\<close>, saturating at the bounds
  of a 64-bit \<^verbatim>\<open>long\<close>, and stores the low 32 bits of the result.

  The two conversions of a \<^verbatim>\<open>double\<close> belong to the C library and to the floating-point
  format, not to this program: \<open>fmt_f6\<close> stands for what \<^verbatim>\<open>%.6f\<close> prints and \<open>conv_lf\<close> for
  what \<^verbatim>\<open>%lf\<close> reads at a position that is not white space, and both are parameters.

  \<^verbatim>\<open>loadGraphFromFile\<close> does not check the junction count or the edge endpoints that it
  reads against \<^verbatim>\<open>MAX\<close>. With a count above \<^verbatim>\<open>MAX\<close>, or an endpoint outside
  \<open>0 .. MAX - 1\<close>, the C code writes outside its arrays; the behaviour is undefined, and the
  model returns \<open>None\<close> for it.
\<close>

definition nl :: char where
  "nl = CHR 0x0A"

definition isspace :: "char \<Rightarrow> bool" where
  "isspace c \<longleftrightarrow> c \<in> {CHR '' '', CHR 0x09, CHR 0x0A, CHR 0x0B, CHR 0x0C, CHR 0x0D}"

definition isdigit :: "char \<Rightarrow> bool" where
  "isdigit c \<longleftrightarrow> 48 \<le> (of_char c :: nat) \<and> (of_char c :: nat) \<le> 57"

definition digit_char :: "nat \<Rightarrow> char" where
  "digit_char n = char_of (48 + n)"


fun show_nat :: "nat \<Rightarrow> string" where
  "show_nat n = (if n < 10 then [digit_char n] else show_nat (n div 10) @ [digit_char (n mod 10)])"

declare show_nat.simps [simp del]

definition show_int :: "int \<Rightarrow> string" where
  "show_int i = (if i < 0 then CHR ''-'' # show_nat (nat (- i)) else show_nat (nat i))"






















section \<open>Vocabulary of the properties\<close>

subsection \<open>Routes and their travel time\<close>

text \<open>
  A route is the list of edge nodes it traverses. \<open>is_walk g u es v\<close>: the edges \<open>es\<close>
  lead from junction \<open>u\<close> to junction \<open>v\<close>, each one taken from the adjacency list of
  the junction reached so far. \<open>path_time g t es\<close>: the time at which a traveller who
  leaves at time \<open>t\<close> has passed the last junction of \<open>es\<close>; every edge adds its weight
  and then the wait at the junction it enters, computed from the arrival time accumulated
  so far on this route.
\<close>

fun path_time :: "Graph \<Rightarrow> int \<Rightarrow> Edge list \<Rightarrow> int" where
  "path_time g t [] = t"
| "path_time g t (e # es) =
     path_time g (t + weight e + getWaitingTime (lights g ! to e) (t + weight e)) es"

fun is_walk :: "Graph \<Rightarrow> nat \<Rightarrow> Edge list \<Rightarrow> nat \<Rightarrow> bool" where
  "is_walk g u [] v \<longleftrightarrow> u = v"
| "is_walk g u (e # es) v \<longleftrightarrow> e \<in> set (adj g ! u) \<and> is_walk g (to e) es v"

text \<open>The time after one edge: its weight, then the wait at the junction entered.\<close>

definition edge_time :: "Graph \<Rightarrow> int \<Rightarrow> Edge \<Rightarrow> int" where
  "edge_time g t e = t + weight e + getWaitingTime (lights g ! to e) (t + weight e)"

text \<open>A simple path visits no junction twice.\<close>

definition simple_path :: "Graph \<Rightarrow> nat \<Rightarrow> Edge list \<Rightarrow> nat \<Rightarrow> bool" where
  "simple_path g u es v \<longleftrightarrow> is_walk g u es v \<and> distinct (u # map to es)"

text \<open>\<open>d\<close> is the minimum of the travel times of the simple paths from \<open>s\<close> to \<open>t\<close>.\<close>

definition least_time :: "Graph \<Rightarrow> nat \<Rightarrow> nat \<Rightarrow> int \<Rightarrow> bool" where
  "least_time g s t d \<longleftrightarrow>
     (\<exists>es. simple_path g s es t \<and> path_time g 0 es = d) \<and>
     (\<forall>es. simple_path g s es t \<longrightarrow> d \<le> path_time g 0 es)"

text \<open>
  \<open>nonneg_graph\<close>: non-negative edge weights and signal phase durations. \<open>no_overflow\<close>:
  on every road, the weight and the whole cycle of the junction entered can be added to
  a distance up to the sentinel without leaving the range of \<^verbatim>\<open>int\<close>. On a graph with
  both properties no sum that the search forms overflows.
\<close>

definition nonneg_graph :: "Graph \<Rightarrow> bool" where
  "nonneg_graph g \<longleftrightarrow>
     (\<forall>u < nv g. \<forall>e \<in> set (adj g ! u). 0 \<le> weight e) \<and>
     (\<forall>v < nv g. 0 \<le> red (lights g ! v) \<and> 0 \<le> green (lights g ! v) \<and> 0 \<le> yellow (lights g ! v))"

definition no_overflow :: "Graph \<Rightarrow> bool" where
  "no_overflow g \<longleftrightarrow>
     (\<forall>u < nv g. \<forall>e \<in> set (adj g ! u).
        weight e + (red (lights g ! to e) + green (lights g ! to e) + yellow (lights g ! to e))
          \<le> INT_MAX_c - INF_c)"

text \<open>
  The search proper: \<^verbatim>\<open>dijkstra\<close> up to the end of its main loop, for indices that passed
  its range check.
\<close>

definition dijkstra_search :: "Graph \<Rightarrow> nat \<Rightarrow> nat \<Rightarrow> SearchState" where
  "dijkstra_search g s t = dijkstra_loop g t (dijkstra_init g s)"

text \<open>What \<^verbatim>\<open>dijkstra\<close> prints as the shortest time, if it prints one.\<close>

fun reported_time :: "Outcome \<Rightarrow> int option" where
  "reported_time (ShortestTime d r) = Some d"
| "reported_time InvalidIndices = None"
| "reported_time (NoPathFound m) = None"

subsection \<open>The heap as a finite map\<close>

text \<open>
  \<open>key\<close> and \<open>vtx\<close> read the two fields of the node in a slot. \<open>hmap h v\<close> is the
  distance that the heap stores for junction \<open>v\<close>, or \<open>None\<close> when the position index
  marks \<open>v\<close> as absent. \<open>winv\<close> says that the position index and the slots below
  \<^verbatim>\<open>size\<close> describe each other, \<open>heap_ord\<close> that no slot is smaller than its parent slot.
  \<open>hswap\<close> is the exchange of two slots that both sifting loops perform, \<open>ord_down\<close> and
  \<open>ord_up\<close> are the heap order with one slot still to be sifted down or up, and
  \<open>drop_root\<close> is the heap of \<^verbatim>\<open>extractMin\<close> just before the new root is sifted down.
\<close>

definition key :: "MinHeap \<Rightarrow> nat \<Rightarrow> int" where
  "key h i = dist_node (node_at h i)"

definition vtx :: "MinHeap \<Rightarrow> nat \<Rightarrow> nat" where
  "vtx h i = v_node (node_at h i)"

definition hswap :: "MinHeap \<Rightarrow> nat \<Rightarrow> nat \<Rightarrow> MinHeap" where
  "hswap h a b =
     h\<lparr>pos := (pos h)[vtx h a := int b, vtx h b := int a], arr := swapHeapNode (arr h) a b\<rparr>"

definition winv :: "nat \<Rightarrow> MinHeap \<Rightarrow> bool" where
  "winv n h \<longleftrightarrow>
     size_h h \<le> n \<and> length (pos h) = n \<and> length (arr h) = n \<and>
     (\<forall>i < size_h h. arr h ! i \<noteq> None \<and> vtx h i < n \<and> pos h ! vtx h i = int i) \<and>
     (\<forall>v < n. pos h ! v \<noteq> - 1 \<longrightarrow>
        0 \<le> pos h ! v \<and> nat (pos h ! v) < size_h h \<and> vtx h (nat (pos h ! v)) = v)"

definition hmap :: "MinHeap \<Rightarrow> nat \<Rightarrow> int option" where
  "hmap h v = (if pos h ! v = - 1 then None else Some (key h (nat (pos h ! v))))"

definition heap_ord :: "MinHeap \<Rightarrow> bool" where
  "heap_ord h \<longleftrightarrow> (\<forall>i < size_h h. 0 < i \<longrightarrow> key h ((i - 1) div 2) \<le> key h i)"

definition ord_down :: "MinHeap \<Rightarrow> nat \<Rightarrow> bool" where
  "ord_down h k \<longleftrightarrow>
     (\<forall>i < size_h h. 0 < i \<longrightarrow> (i - 1) div 2 \<noteq> k \<longrightarrow> key h ((i - 1) div 2) \<le> key h i) \<and>
     (\<forall>i < size_h h. 0 < i \<longrightarrow> 0 < k \<longrightarrow> (i - 1) div 2 = k \<longrightarrow> key h ((k - 1) div 2) \<le> key h i)"

definition ord_up :: "MinHeap \<Rightarrow> nat \<Rightarrow> bool" where
  "ord_up h k \<longleftrightarrow>
     (\<forall>i < size_h h. 0 < i \<longrightarrow> i \<noteq> k \<longrightarrow> key h ((i - 1) div 2) \<le> key h i) \<and>
     (\<forall>i < size_h h. 0 < i \<longrightarrow> 0 < k \<longrightarrow> (i - 1) div 2 = k \<longrightarrow> key h ((k - 1) div 2) \<le> key h i)"

definition hinv :: "nat \<Rightarrow> MinHeap \<Rightarrow> bool" where
  "hinv n h \<longleftrightarrow> winv n h \<and> heap_ord h"

definition drop_root :: "MinHeap \<Rightarrow> MinHeap" where
  "drop_root h =
     h\<lparr>arr := (arr h)[0 := arr h ! (size_h h - 1)],
       pos := (pos h)[vtx h (size_h h - 1) := 0, vtx h 0 := - 1],
       size_h := size_h h - 1\<rparr>"

text \<open>
  The heap that \<^verbatim>\<open>dijkstra\<close> builds before it lowers the key of the source: one entry for
  each junction, in id order, all at the sentinel distance. \<open>built n k\<close> describes it
  after \<open>k\<close> entries.
\<close>

definition build_heap :: "nat \<Rightarrow> MinHeap" where
  "build_heap n = foldl push_node (createMinHeap n) [0..<n]"

definition built :: "nat \<Rightarrow> nat \<Rightarrow> MinHeap \<Rightarrow> bool" where
  "built n k h \<longleftrightarrow>
     size_h h = k \<and> length (pos h) = n \<and> length (arr h) = n \<and>
     (\<forall>i < k. arr h ! i = Some \<lparr>v_node = i, dist_node = INF_c\<rparr> \<and> pos h ! i = int i) \<and>
     (\<forall>i. k \<le> i \<and> i < n \<longrightarrow> pos h ! i = - 1)"

text \<open>
  A sequence of calls on a heap. \<open>heap_after\<close> is the heap they leave, \<open>extracted\<close> the
  junctions that the \<^verbatim>\<open>extractMin\<close> calls returned, and \<open>calls_ok\<close> the contract of
  \<^verbatim>\<open>decreaseKey\<close>: the junction id is in range and the new distance does not exceed the
  one stored.
\<close>

datatype heap_call = DecreaseKey nat int | ExtractMin

fun heap_after :: "MinHeap \<Rightarrow> heap_call list \<Rightarrow> MinHeap" where
  "heap_after h [] = h"
| "heap_after h (DecreaseKey v d # cs) = heap_after (decreaseKey h v d) cs"
| "heap_after h (ExtractMin # cs) = heap_after (snd (extractMin h)) cs"

fun extracted :: "MinHeap \<Rightarrow> heap_call list \<Rightarrow> nat list" where
  "extracted h [] = []"
| "extracted h (DecreaseKey v d # cs) = extracted (decreaseKey h v d) cs"
| "extracted h (ExtractMin # cs) =
     (case fst (extractMin h) of None \<Rightarrow> [] | Some r \<Rightarrow> [v_node r]) @ extracted (snd (extractMin h)) cs"

fun calls_ok :: "nat \<Rightarrow> MinHeap \<Rightarrow> heap_call list \<Rightarrow> bool" where
  "calls_ok n h [] \<longleftrightarrow> True"
| "calls_ok n h (DecreaseKey v d # cs) \<longleftrightarrow>
     v < n \<and> (pos h ! v \<noteq> - 1 \<longrightarrow> d \<le> dist_node (node_at h (nat (pos h ! v))))
     \<and> calls_ok n (decreaseKey h v d) cs"
| "calls_ok n h (ExtractMin # cs) \<longleftrightarrow> calls_ok n (snd (extractMin h)) cs"

subsection \<open>Invariants of the search\<close>

text \<open>
  \<open>dinv0\<close>: the heap is well formed and stores, for every open junction, its entry of
  \<^verbatim>\<open>dist\<close>; no distance exceeds the sentinel, and a junction whose distance is not the
  sentinel is reached by some route from the source. It does not depend on the values of
  the sums.
\<close>

definition dinv0 :: "Graph \<Rightarrow> nat \<Rightarrow> SearchState \<Rightarrow> bool" where
  "dinv0 g s st \<longleftrightarrow>
     length (dist_s st) = nv g \<and> hinv (nv g) (heap_s st) \<and>
     (\<forall>v < nv g. hmap (heap_s st) v = None \<or> hmap (heap_s st) v = Some (dist_s st ! v)) \<and>
     (\<forall>v < nv g. dist_s st ! v \<le> INF_c) \<and>
     (\<forall>v < nv g. dist_s st ! v \<noteq> INF_c \<longrightarrow> (\<exists>es. is_walk g s es v))"

text \<open>
  \<open>tinv\<close>, for graphs without overflow: a distance other than the sentinel is the travel
  time of some route from the source.
\<close>

definition tinv :: "Graph \<Rightarrow> nat \<Rightarrow> SearchState \<Rightarrow> bool" where
  "tinv g s st \<longleftrightarrow>
     (\<forall>v < nv g. dist_s st ! v \<noteq> INF_c \<longrightarrow>
        (\<exists>es. is_walk g s es v \<and> path_time g 0 es = dist_s st ! v))"

text \<open>
  \<open>dinv1\<close>, for non-negative graphs without overflow, at the head of the main loop:
  distances are not negative, the source is at 0, no closed junction is farther than an
  open one, and every edge out of a closed junction has been relaxed. \<open>rinv\<close> is the same
  while the edges of the junction \<open>u\<close> just extracted are being relaxed, \<open>D\<close> being those
  already done.
\<close>

definition dinv1 :: "Graph \<Rightarrow> nat \<Rightarrow> SearchState \<Rightarrow> bool" where
  "dinv1 g s st \<longleftrightarrow>
     (\<forall>v < nv g. 0 \<le> dist_s st ! v) \<and> dist_s st ! s \<le> 0 \<and>
     (\<forall>c < nv g. \<forall>x < nv g.
        pos (heap_s st) ! c = - 1 \<longrightarrow> pos (heap_s st) ! x \<noteq> - 1 \<longrightarrow> dist_s st ! c \<le> dist_s st ! x) \<and>
     (\<forall>c < nv g. pos (heap_s st) ! c = - 1 \<longrightarrow>
        (\<forall>e \<in> set (adj g ! c). dist_s st ! to e \<le> edge_time g (dist_s st ! c) e))"

definition rinv :: "Graph \<Rightarrow> nat \<Rightarrow> nat \<Rightarrow> Edge set \<Rightarrow> SearchState \<Rightarrow> bool" where
  "rinv g s u D st \<longleftrightarrow>
     (\<forall>v < nv g. 0 \<le> dist_s st ! v) \<and> dist_s st ! s \<le> 0 \<and>
     (\<forall>c < nv g. \<forall>x < nv g.
        pos (heap_s st) ! c = - 1 \<longrightarrow> pos (heap_s st) ! x \<noteq> - 1 \<longrightarrow> dist_s st ! c \<le> dist_s st ! x) \<and>
     pos (heap_s st) ! u = - 1 \<and>
     (\<forall>c < nv g. pos (heap_s st) ! c = - 1 \<longrightarrow> dist_s st ! c \<le> dist_s st ! u) \<and>
     (\<forall>c < nv g. pos (heap_s st) ! c = - 1 \<longrightarrow> c \<noteq> u \<longrightarrow>
        (\<forall>e \<in> set (adj g ! c). dist_s st ! to e \<le> edge_time g (dist_s st ! c) e)) \<and>
     (\<forall>e \<in> D. dist_s st ! to e \<le> edge_time g (dist_s st ! u) e)"

subsection \<open>Example graphs\<close>

text \<open>
  \<open>example_graph n adjs l\<close> has \<open>n\<close> junctions with the adjacency lists \<open>adjs\<close>, the
  same signal phase \<open>l\<close> everywhere, and every array filled up to \<^verbatim>\<open>MAX\<close> slots.
\<close>

definition example_graph :: "nat \<Rightarrow> Edge list list \<Rightarrow> TrafficLight \<Rightarrow> Graph" where
  "example_graph n adjs l =
     \<lparr>vertices = int n, adj = adjs @ replicate (MAX_c - length adjs) [],
      lights = replicate MAX_c l, names = replicate MAX_c ''J'',
      lat = replicate MAX_c 0, lon = replicate MAX_c 0\<rparr>"

definition graph_islands :: Graph where
  "graph_islands = example_graph 2 [[], []] \<lparr>red = 10, green = 5, yellow = 2\<rparr>"

definition graph_annex :: Graph where
  "graph_annex =
     (example_graph 3 [[\<lparr>to = 1, weight = 4\<rparr>], [\<lparr>to = 0, weight = 4\<rparr>], []]
        \<lparr>red = 10, green = 5, yellow = 2\<rparr>)
       \<lparr>names := [[CHR ''A'', CHR 0x22], ''B'', ''C''] @ replicate (MAX_c - 3) ''J''\<rparr>"

definition graph_long_road :: Graph where
  "graph_long_road =
     example_graph 2 [[\<lparr>to = 1, weight = 999999\<rparr>], [\<lparr>to = 0, weight = 999999\<rparr>]]
       \<lparr>red = 0, green = 1, yellow = 0\<rparr>"

definition graph_triangle :: Graph where
  "graph_triangle =
     example_graph 3
       [[\<lparr>to = 2, weight = 10\<rparr>, \<lparr>to = 1, weight = 4\<rparr>],
        [\<lparr>to = 2, weight = 4\<rparr>, \<lparr>to = 0, weight = 4\<rparr>],
        [\<lparr>to = 0, weight = 10\<rparr>, \<lparr>to = 1, weight = 4\<rparr>]]
       \<lparr>red = 0, green = 100, yellow = 0\<rparr>"

definition graph_far_road :: Graph where
  "graph_far_road =
     example_graph 2 [[\<lparr>to = 1, weight = 1000000\<rparr>], [\<lparr>to = 0, weight = 1000000\<rparr>]]
       \<lparr>red = 0, green = 1, yellow = 0\<rparr>"

definition graph_wide_road :: Graph where
  "graph_wide_road =
     example_graph 2 [[\<lparr>to = 1, weight = 2147483647\<rparr>], [\<lparr>to = 0, weight = 2147483647\<rparr>]]
       \<lparr>red = 10, green = 5, yellow = 2\<rparr>"

definition graph_one :: Graph where
  "graph_one = (example_graph 1 [[]] \<lparr>red = 10, green = 5, yellow = 2\<rparr>)\<lparr>names := replicate MAX_c ''A''\<rparr>"


subsection \<open>Snapshots\<close>



text \<open>
  \<open>twin u p\<close> is the entry that \<^verbatim>\<open>addEdge\<close> stores at the other end of a road together with
  the entry \<open>p\<close> of junction \<open>u\<close>. \<open>undirected\<close>: the adjacency lists consist of such
  pairs, that is, every entry occurs in its list as often as its twin occurs in the list of
  the junction it leads to. \<open>no_self_loops\<close>: no junction has an entry to itself.
  \<open>forward g u\<close> are the entries of \<open>u\<close> that lead to a junction with a larger id, the
  ones that a save writes, and \<open>backward g y\<close> the twins of the forward entries that lead
  to \<open>y\<close>.
\<close>

definition twin :: "nat \<Rightarrow> Edge \<Rightarrow> Edge" where
  "twin u p = \<lparr>to = u, weight = weight p\<rparr>"

definition undirected :: "Graph \<Rightarrow> bool" where
  "undirected g \<longleftrightarrow>
     (\<forall>u < nv g. \<forall>p \<in> set (adj g ! u).
        count_list (adj g ! u) p = count_list (adj g ! to p) (twin u p))"










definition put_road :: "Graph \<Rightarrow> nat \<times> Edge \<Rightarrow> Graph" where
  "put_road g x =
     (let g1 = g\<lparr>adj := (adj g)[fst x := snd x # (adj g ! fst x)]\<rparr>
      in g1\<lparr>adj := (adj g1)[to (snd x) := twin (fst x) (snd x) # (adj g1 ! to (snd x))]\<rparr>)"




section \<open>Properties of the signal model\<close>

lemma c_rem_nonneg: "0 \<le> a \<Longrightarrow> 0 < b \<Longrightarrow> c_rem a b = a mod b"
  by (cases "a = 0") (simp_all add: c_rem_def)

lemma c_int_id: "INT_MIN_c \<le> x \<Longrightarrow> x \<le> INT_MAX_c \<Longrightarrow> c_int x = x"
  by (simp add: c_int_def INT_MIN_c_def INT_MAX_c_def)

lemma c_int_range: "INT_MIN_c \<le> c_int x" "c_int x \<le> INT_MAX_c"
proof -
  have "0 \<le> (x + 2147483648) mod 4294967296" "(x + 2147483648) mod 4294967296 < 4294967296"
    by simp_all
  then show "INT_MIN_c \<le> c_int x" "c_int x \<le> INT_MAX_c"
    by (simp_all add: c_int_def INT_MIN_c_def INT_MAX_c_def)
qed

lemma c_int_le: "0 \<le> x \<Longrightarrow> c_int x \<le> x"
proof -
  assume "0 \<le> x"
  then have "(x + 2147483648) mod 4294967296 \<le> x + 2147483648"
    by (intro zmod_le_nonneg_dividend) simp
  then show ?thesis
    by (simp add: c_int_def)
qed

lemma c_int_add_left: "c_int (c_int a + b) = c_int (a + b)"
proof -
  define m where "m = (a + 2147483648) mod 4294967296"
  have "c_int a + b + 2147483648 = m + b"
    by (simp add: c_int_def m_def)
  then have "(c_int a + b + 2147483648) mod 4294967296 = (m + b) mod 4294967296"
    by (simp only:)
  also have "\<dots> = (a + 2147483648 + b) mod 4294967296"
    unfolding m_def by (rule mod_add_left_eq)
  also have "a + 2147483648 + b = a + b + 2147483648"
    by simp
  finally show ?thesis
    by (simp add: c_int_def)
qed

lemma cycle_c_int: "add_c (add_c r g) y = c_int (r + g + y)"
  by (simp add: add_c_def c_int_add_left)

lemma cycle_exact:
  assumes "0 \<le> r" "0 \<le> g" "0 \<le> y" "r + g + y \<le> INT_MAX_c"
  shows "add_c (add_c r g) y = r + g + y"
  unfolding cycle_c_int using assms by (intro c_int_id) (simp_all add: INT_MIN_c_def)

text \<open>
  What \<^verbatim>\<open>getWaitingTime\<close> returns at a non-negative arrival time, in terms of the cycle
  that it computes: the difference that it forms stays between 1 and the cycle.
\<close>

lemma getWaitingTime_cases:
  assumes "0 \<le> a"
  shows "getWaitingTime l a =
           (if c_int (red l + green l + yellow l) \<le> 0 then 0
            else if a mod c_int (red l + green l + yellow l) < green l then 0
            else c_int (red l + green l + yellow l) - a mod c_int (red l + green l + yellow l))"
proof (cases "c_int (red l + green l + yellow l) \<le> 0")
  case True
  then show ?thesis
    by (simp add: getWaitingTime_def cycle_c_int)
next
  case False
  define c where "c = c_int (red l + green l + yellow l)"
  have c: "0 < c" using False by (simp add: c_def)
  have r: "c_rem a c = a mod c"
    using assms c by (rule c_rem_nonneg)
  have m: "0 \<le> a mod c" "a mod c < c"
    using c by simp_all
  have "c \<le> INT_MAX_c"
    unfolding c_def by (rule c_int_range)
  then have "sub_c c (a mod c) = c - a mod c"
    unfolding sub_c_def using m by (intro c_int_id) (simp_all add: INT_MIN_c_def)
  then show ?thesis
    using c by (simp add: getWaitingTime_def cycle_c_int c_def [symmetric] r Let_def)
qed

lemma getWaitingTime_exact:
  assumes "0 \<le> red l" "0 \<le> green l" "0 \<le> yellow l"
    and "red l + green l + yellow l \<le> INT_MAX_c" and "0 \<le> a"
  shows "getWaitingTime l a =
           (if red l + green l + yellow l \<le> 0 then 0
            else if a mod (red l + green l + yellow l) < green l then 0
            else (red l + green l + yellow l) - a mod (red l + green l + yellow l))"
proof -
  have "c_int (red l + green l + yellow l) = red l + green l + yellow l"
    using assms(1-4) by (intro c_int_id) (simp_all add: INT_MIN_c_def)
  then show ?thesis
    using getWaitingTime_cases [OF assms(5), of l] by simp
qed

text \<open>
  Claim C2, as stated: for all non-negative durations the result follows the cycle
  \<open>red + green + yellow\<close>. It fails where that sum does not fit an \<^verbatim>\<open>int\<close>: with red
  2147483647, green 1 and yellow 0 the sum is 2147483648, an arrival at time 5 is outside
  the green window and the claim gives the wait 2147483643, but the cycle that the function
  computes is not positive and it returns 0.
\<close>

theorem getWaitingTime_spec_counterexample:
  "0 \<le> red \<lparr>red = 2147483647, green = 1, yellow = 0\<rparr>
   \<and> 0 \<le> green \<lparr>red = 2147483647, green = 1, yellow = 0\<rparr>
   \<and> 0 \<le> yellow \<lparr>red = 2147483647, green = 1, yellow = 0\<rparr>
   \<and> (0::int) \<le> 5
   \<and> \<not> red \<lparr>red = 2147483647, green = 1, yellow = 0\<rparr> + green \<lparr>red = 2147483647, green = 1, yellow = 0\<rparr>
         + yellow \<lparr>red = 2147483647, green = 1, yellow = 0\<rparr> \<le> 0
   \<and> \<not> 5 mod (red \<lparr>red = 2147483647, green = 1, yellow = 0\<rparr> + green \<lparr>red = 2147483647, green = 1, yellow = 0\<rparr>
         + yellow \<lparr>red = 2147483647, green = 1, yellow = 0\<rparr>) < green \<lparr>red = 2147483647, green = 1, yellow = 0\<rparr>
   \<and> (red \<lparr>red = 2147483647, green = 1, yellow = 0\<rparr> + green \<lparr>red = 2147483647, green = 1, yellow = 0\<rparr>
         + yellow \<lparr>red = 2147483647, green = 1, yellow = 0\<rparr>)
       - 5 mod (red \<lparr>red = 2147483647, green = 1, yellow = 0\<rparr> + green \<lparr>red = 2147483647, green = 1, yellow = 0\<rparr>
         + yellow \<lparr>red = 2147483647, green = 1, yellow = 0\<rparr>) = 2147483643
   \<and> getWaitingTime \<lparr>red = 2147483647, green = 1, yellow = 0\<rparr> 5 = 0"
  by (simp add: getWaitingTime_def add_c_def c_int_def)

text \<open>
  Claim C2, amended: with non-negative durations whose sum fits an \<^verbatim>\<open>int\<close> (it is at most
  2147483647) and a non-negative arrival time, \<^verbatim>\<open>getWaitingTime\<close> is 0 when the cycle
  \<open>red + green + yellow\<close> is not positive; otherwise, with \<open>t = arrivalTime mod cycle\<close>,
  it is 0 when \<open>t < green\<close> and \<open>cycle - t\<close> when \<open>t \<ge> green\<close>: only the window from 0 up
  to \<open>green\<close> lets the traveller pass.
\<close>

theorem getWaitingTime_spec:
  assumes "0 \<le> red l" and "0 \<le> green l" and "0 \<le> yellow l"
    and "red l + green l + yellow l \<le> 2147483647" and "0 \<le> a"
  shows "getWaitingTime l a =
           (if red l + green l + yellow l \<le> 0 then 0
            else if a mod (red l + green l + yellow l) < green l then 0
            else (red l + green l + yellow l) - a mod (red l + green l + yellow l))"
  using assms by (intro getWaitingTime_exact) (simp_all add: INT_MAX_c_def)

theorem getWaitingTime_spec_witness:
  "0 \<le> red \<lparr>red = 10, green = 5, yellow = 0\<rparr> \<and> 0 \<le> green \<lparr>red = 10, green = 5, yellow = 0\<rparr>
   \<and> 0 \<le> yellow \<lparr>red = 10, green = 5, yellow = 0\<rparr>
   \<and> red \<lparr>red = 10, green = 5, yellow = 0\<rparr> + green \<lparr>red = 10, green = 5, yellow = 0\<rparr>
       + yellow \<lparr>red = 10, green = 5, yellow = 0\<rparr> \<le> 2147483647
   \<and> (0::int) \<le> 12
   \<and> getWaitingTime \<lparr>red = 10, green = 5, yellow = 0\<rparr> 12 = 3
   \<and> getWaitingTime \<lparr>red = 10, green = 5, yellow = 0\<rparr> 17 = 0
   \<and> getWaitingTime \<lparr>red = 0, green = 0, yellow = 0\<rparr> 12 = 0"
  using getWaitingTime_spec [of "\<lparr>red = 10, green = 5, yellow = 0\<rparr>" 12]
    getWaitingTime_spec [of "\<lparr>red = 10, green = 5, yellow = 0\<rparr>" 17]
    getWaitingTime_spec [of "\<lparr>red = 0, green = 0, yellow = 0\<rparr>" 12]
  by simp

text \<open>
  Claim C5, as stated: with a cycle of at least 1 the waiting time is in \<open>[0, cycle)\<close>.
  It fails for a signal that is never green: arriving at time 0 at a junction with
  red 10, green 0, yellow 0 waits the whole cycle, 10.
\<close>

theorem getWaitingTime_below_cycle_counterexample:
  "0 \<le> red \<lparr>red = 10, green = 0, yellow = 0\<rparr> \<and> 0 \<le> green \<lparr>red = 10, green = 0, yellow = 0\<rparr>
   \<and> 0 \<le> yellow \<lparr>red = 10, green = 0, yellow = 0\<rparr>
   \<and> 1 \<le> red \<lparr>red = 10, green = 0, yellow = 0\<rparr> + green \<lparr>red = 10, green = 0, yellow = 0\<rparr>
          + yellow \<lparr>red = 10, green = 0, yellow = 0\<rparr>
   \<and> (0::int) \<le> 0
   \<and> getWaitingTime \<lparr>red = 10, green = 0, yellow = 0\<rparr> 0 = 10
   \<and> \<not> getWaitingTime \<lparr>red = 10, green = 0, yellow = 0\<rparr> 0
         < red \<lparr>red = 10, green = 0, yellow = 0\<rparr> + green \<lparr>red = 10, green = 0, yellow = 0\<rparr>
           + yellow \<lparr>red = 10, green = 0, yellow = 0\<rparr>"
  by (simp add: getWaitingTime_def c_rem_def add_c_def sub_c_def c_int_def)

text \<open>
  Claim C5, amended: with a cycle of at least 1 the waiting time is in the closed interval
  \<open>[0, cycle]\<close>, and it is in \<open>[0, cycle)\<close> whenever the green duration is at least 1.
  This holds for all non-negative durations, also where their sum does not fit an \<^verbatim>\<open>int\<close>:
  the cycle that the function computes is then smaller than the sum.
\<close>

theorem getWaitingTime_range:
  assumes "0 \<le> red l" and "0 \<le> green l" and "0 \<le> yellow l"
    and "1 \<le> red l + green l + yellow l" and "0 \<le> a"
  shows "0 \<le> getWaitingTime l a \<and> getWaitingTime l a \<le> red l + green l + yellow l
         \<and> (1 \<le> green l \<longrightarrow> getWaitingTime l a < red l + green l + yellow l)"
proof -
  let ?s = "red l + green l + yellow l"
  define c where "c = c_int ?s"
  have cs: "c \<le> ?s"
    unfolding c_def using assms(4) by (intro c_int_le) simp
  note g = getWaitingTime_cases [OF assms(5), of l, folded c_def]
  show ?thesis
  proof (cases "c \<le> 0 \<or> a mod c < green l")
    case True
    then have "getWaitingTime l a = 0"
      using g by auto
    then show ?thesis
      using assms(4) by simp
  next
    case False
    then have c: "0 < c" and t: "green l \<le> a mod c"
      by simp_all
    have m: "0 \<le> a mod c" "a mod c < c"
      using c by simp_all
    have "getWaitingTime l a = c - a mod c"
      using g False by auto
    moreover have "1 \<le> green l \<Longrightarrow> 0 < a mod c"
      using t by simp
    ultimately show ?thesis
      using m cs by auto
  qed
qed

theorem getWaitingTime_range_witness:
  "0 \<le> red \<lparr>red = 10, green = 5, yellow = 2\<rparr> \<and> 0 \<le> green \<lparr>red = 10, green = 5, yellow = 2\<rparr>
   \<and> 0 \<le> yellow \<lparr>red = 10, green = 5, yellow = 2\<rparr>
   \<and> 1 \<le> red \<lparr>red = 10, green = 5, yellow = 2\<rparr> + green \<lparr>red = 10, green = 5, yellow = 2\<rparr>
          + yellow \<lparr>red = 10, green = 5, yellow = 2\<rparr>
   \<and> (0::int) \<le> 23 \<and> 1 \<le> green \<lparr>red = 10, green = 5, yellow = 2\<rparr>
   \<and> 0 \<le> getWaitingTime \<lparr>red = 10, green = 5, yellow = 2\<rparr> 23
   \<and> getWaitingTime \<lparr>red = 10, green = 5, yellow = 2\<rparr> 23 < 17"
  using getWaitingTime_range [of "\<lparr>red = 10, green = 5, yellow = 2\<rparr>" 23]
  by simp

text \<open>
  Claim C9, as stated: for all non-negative durations with a positive cycle the wait is the
  whole cycle exactly when green is 0 and the arrival time is a multiple of the cycle. It
  fails where the sum of the durations does not fit an \<^verbatim>\<open>int\<close>: with red 1073741824,
  green 0 and yellow 1073741824 the sum is 2147483648 and the arrival time 0 is a multiple
  of it, but the cycle that the function computes is not positive and it returns 0.
\<close>

theorem getWaitingTime_full_cycle_counterexample:
  "0 \<le> red \<lparr>red = 1073741824, green = 0, yellow = 1073741824\<rparr>
   \<and> 0 \<le> green \<lparr>red = 1073741824, green = 0, yellow = 1073741824\<rparr>
   \<and> 0 \<le> yellow \<lparr>red = 1073741824, green = 0, yellow = 1073741824\<rparr>
   \<and> 0 < red \<lparr>red = 1073741824, green = 0, yellow = 1073741824\<rparr>
          + green \<lparr>red = 1073741824, green = 0, yellow = 1073741824\<rparr>
          + yellow \<lparr>red = 1073741824, green = 0, yellow = 1073741824\<rparr>
   \<and> (0::int) \<le> 0
   \<and> green \<lparr>red = 1073741824, green = 0, yellow = 1073741824\<rparr> = 0
   \<and> 0 mod (red \<lparr>red = 1073741824, green = 0, yellow = 1073741824\<rparr>
          + green \<lparr>red = 1073741824, green = 0, yellow = 1073741824\<rparr>
          + yellow \<lparr>red = 1073741824, green = 0, yellow = 1073741824\<rparr>) = 0
   \<and> getWaitingTime \<lparr>red = 1073741824, green = 0, yellow = 1073741824\<rparr> 0 = 0
   \<and> getWaitingTime \<lparr>red = 1073741824, green = 0, yellow = 1073741824\<rparr> 0
       \<noteq> red \<lparr>red = 1073741824, green = 0, yellow = 1073741824\<rparr>
          + green \<lparr>red = 1073741824, green = 0, yellow = 1073741824\<rparr>
          + yellow \<lparr>red = 1073741824, green = 0, yellow = 1073741824\<rparr>"
  by (simp add: getWaitingTime_def add_c_def c_int_def)

text \<open>
  Claim C9, amended: with non-negative durations whose sum fits an \<^verbatim>\<open>int\<close> (it is at most
  2147483647), a positive cycle and a non-negative arrival time, the waiting time is at
  most the cycle, and it is exactly the cycle precisely when the green duration is 0 and
  the arrival time is a multiple of the cycle.
\<close>

theorem getWaitingTime_full_cycle:
  assumes "0 \<le> red l" and "0 \<le> green l" and "0 \<le> yellow l"
    and "0 < red l + green l + yellow l" and "red l + green l + yellow l \<le> 2147483647"
    and "0 \<le> a"
  shows "getWaitingTime l a \<le> red l + green l + yellow l
         \<and> (getWaitingTime l a = red l + green l + yellow l
              \<longleftrightarrow> green l = 0 \<and> a mod (red l + green l + yellow l) = 0)"
proof -
  let ?c = "red l + green l + yellow l"
  have m: "0 \<le> a mod ?c" "a mod ?c < ?c"
    using assms(4) by simp_all
  have g: "getWaitingTime l a = (if a mod ?c < green l then 0 else ?c - a mod ?c)"
    using getWaitingTime_exact [OF assms(1-3) _ assms(6)] assms(4,5) by (simp add: INT_MAX_c_def)
  show ?thesis
  proof (cases "a mod ?c < green l")
    case True
    then have "getWaitingTime l a = 0"
      using g by simp
    moreover have "\<not> (green l = 0 \<and> a mod ?c = 0)"
      using True by auto
    ultimately show ?thesis
      using assms(4) by auto
  next
    case False
    then have "getWaitingTime l a = ?c - a mod ?c"
      using g by simp
    moreover have "a mod ?c = 0 \<Longrightarrow> green l = 0"
      using False assms(2) by simp
    ultimately show ?thesis
      using m False by auto
  qed
qed

theorem getWaitingTime_full_cycle_witness:
  "0 \<le> red \<lparr>red = 7, green = 0, yellow = 3\<rparr> \<and> 0 \<le> green \<lparr>red = 7, green = 0, yellow = 3\<rparr>
   \<and> 0 \<le> yellow \<lparr>red = 7, green = 0, yellow = 3\<rparr>
   \<and> 0 < red \<lparr>red = 7, green = 0, yellow = 3\<rparr> + green \<lparr>red = 7, green = 0, yellow = 3\<rparr>
          + yellow \<lparr>red = 7, green = 0, yellow = 3\<rparr>
   \<and> red \<lparr>red = 7, green = 0, yellow = 3\<rparr> + green \<lparr>red = 7, green = 0, yellow = 3\<rparr>
          + yellow \<lparr>red = 7, green = 0, yellow = 3\<rparr> \<le> 2147483647
   \<and> (0::int) \<le> 20
   \<and> getWaitingTime \<lparr>red = 7, green = 0, yellow = 3\<rparr> 20 = 10"
  using getWaitingTime_full_cycle [of "\<lparr>red = 7, green = 0, yellow = 3\<rparr>" 20]
  by simp

section \<open>Properties of the graph store\<close>

text \<open>
  Claim C7. For in-range junction ids \<open>u\<close> and \<open>v\<close>, \<^verbatim>\<open>addEdge\<close> prints nothing and
  inserts exactly two adjacency entries, \<open>u \<rightarrow> v\<close> at the head of the list of \<open>u\<close> and
  \<open>v \<rightarrow> u\<close> at the head of the list of \<open>v\<close>, both with weight \<open>w\<close>; every other list
  and field is unchanged. With an endpoint out of range it reports the pair and leaves the
  graph as it was.
\<close>

theorem addEdge_spec:
  assumes "length (adj g) = MAX_c" and "vertices g \<le> int MAX_c"
  shows "(0 \<le> u \<and> u < vertices g \<and> 0 \<le> v \<and> v < vertices g \<longrightarrow>
            fst (addEdge g u v w) = None
            \<and> length (adj (snd (addEdge g u v w))) = length (adj g)
            \<and> (\<forall>x < MAX_c. adj (snd (addEdge g u v w)) ! x =
                  (if x = nat v then [\<lparr>to = nat u, weight = w\<rparr>] else [])
                  @ (if x = nat u then [\<lparr>to = nat v, weight = w\<rparr>] else [])
                  @ adj g ! x)
            \<and> snd (addEdge g u v w) = g\<lparr>adj := adj (snd (addEdge g u v w))\<rparr>)
         \<and> (\<not> (0 \<le> u \<and> u < vertices g \<and> 0 \<le> v \<and> v < vertices g) \<longrightarrow>
            addEdge g u v w = (Some (InvalidEdgeIndices u v), g))"
proof -
  have "nat u < length (adj g) \<and> nat v < length (adj g)"
    if "0 \<le> u \<and> u < vertices g \<and> 0 \<le> v \<and> v < vertices g"
    using that assms by auto
  then show ?thesis
    by (auto simp: addEdge_def Let_def newEdge_def nth_list_update)
qed

theorem addEdge_spec_witness:
  "length (adj \<lparr>vertices = 3, adj = replicate 50 [], lights = replicate 50 \<lparr>red = 0, green = 1, yellow = 0\<rparr>,
                names = replicate 50 [], lat = replicate 50 0, lon = replicate 50 0\<rparr>) = MAX_c
   \<and> vertices \<lparr>vertices = 3, adj = replicate 50 [], lights = replicate 50 \<lparr>red = 0, green = 1, yellow = 0\<rparr>,
                names = replicate 50 [], lat = replicate 50 0, lon = replicate 50 0\<rparr> \<le> int MAX_c
   \<and> fst (addEdge \<lparr>vertices = 3, adj = replicate 50 [], lights = replicate 50 \<lparr>red = 0, green = 1, yellow = 0\<rparr>,
                names = replicate 50 [], lat = replicate 50 0, lon = replicate 50 0\<rparr> 0 2 7) = None
   \<and> adj (snd (addEdge \<lparr>vertices = 3, adj = replicate 50 [], lights = replicate 50 \<lparr>red = 0, green = 1, yellow = 0\<rparr>,
                names = replicate 50 [], lat = replicate 50 0, lon = replicate 50 0\<rparr> 0 2 7)) ! 0
       = [\<lparr>to = 2, weight = 7\<rparr>]
   \<and> adj (snd (addEdge \<lparr>vertices = 3, adj = replicate 50 [], lights = replicate 50 \<lparr>red = 0, green = 1, yellow = 0\<rparr>,
                names = replicate 50 [], lat = replicate 50 0, lon = replicate 50 0\<rparr> 0 2 7)) ! 2
       = [\<lparr>to = 0, weight = 7\<rparr>]
   \<and> adj (snd (addEdge \<lparr>vertices = 3, adj = replicate 50 [], lights = replicate 50 \<lparr>red = 0, green = 1, yellow = 0\<rparr>,
                names = replicate 50 [], lat = replicate 50 0, lon = replicate 50 0\<rparr> 0 2 7)) ! 1
       = []
   \<and> addEdge \<lparr>vertices = 3, adj = replicate 50 [], lights = replicate 50 \<lparr>red = 0, green = 1, yellow = 0\<rparr>,
                names = replicate 50 [], lat = replicate 50 0, lon = replicate 50 0\<rparr> 0 3 7
       = (Some (InvalidEdgeIndices 0 3),
          \<lparr>vertices = 3, adj = replicate 50 [], lights = replicate 50 \<lparr>red = 0, green = 1, yellow = 0\<rparr>,
                names = replicate 50 [], lat = replicate 50 0, lon = replicate 50 0\<rparr>)"
  using addEdge_spec [of "\<lparr>vertices = 3, adj = replicate 50 [], lights = replicate 50 \<lparr>red = 0, green = 1, yellow = 0\<rparr>,
                names = replicate 50 [], lat = replicate 50 0, lon = replicate 50 0\<rparr>" 0 2 7]
    addEdge_spec [of "\<lparr>vertices = 3, adj = replicate 50 [], lights = replicate 50 \<lparr>red = 0, green = 1, yellow = 0\<rparr>,
                names = replicate 50 [], lat = replicate 50 0, lon = replicate 50 0\<rparr>" 0 3 7]
  by (simp add: MAX_c_def)

text \<open>
  Claim C10. \<^verbatim>\<open>addEdge\<close> does not reject a self-loop: for an in-range junction \<open>u\<close>,
  \<^verbatim>\<open>addEdge(g, u, u, w)\<close> prints nothing and puts two entries \<open>u \<rightarrow> u\<close> of weight \<open>w\<close>
  at the head of the adjacency list of \<open>u\<close>, leaving the other lists as they were.
\<close>

theorem addEdge_self_loop:
  assumes "length (adj g) = MAX_c" and "vertices g \<le> int MAX_c"
    and "0 \<le> u" and "u < vertices g"
  shows "fst (addEdge g u u w) = None
         \<and> adj (snd (addEdge g u u w)) ! nat u
             = \<lparr>to = nat u, weight = w\<rparr> # \<lparr>to = nat u, weight = w\<rparr> # adj g ! nat u
         \<and> (\<forall>x < MAX_c. x \<noteq> nat u \<longrightarrow> adj (snd (addEdge g u u w)) ! x = adj g ! x)"
proof -
  have "nat u < length (adj g)"
    using assms by auto
  then show ?thesis
    using assms(3,4) by (auto simp: addEdge_def Let_def newEdge_def)
qed

theorem addEdge_self_loop_witness:
  "length (adj \<lparr>vertices = 2, adj = replicate 50 [], lights = replicate 50 \<lparr>red = 0, green = 1, yellow = 0\<rparr>,
                names = replicate 50 [], lat = replicate 50 0, lon = replicate 50 0\<rparr>) = MAX_c
   \<and> vertices \<lparr>vertices = 2, adj = replicate 50 [], lights = replicate 50 \<lparr>red = 0, green = 1, yellow = 0\<rparr>,
                names = replicate 50 [], lat = replicate 50 0, lon = replicate 50 0\<rparr> \<le> int MAX_c
   \<and> (0::int) \<le> 1
   \<and> 1 < vertices \<lparr>vertices = 2, adj = replicate 50 [], lights = replicate 50 \<lparr>red = 0, green = 1, yellow = 0\<rparr>,
                names = replicate 50 [], lat = replicate 50 0, lon = replicate 50 0\<rparr>
   \<and> adj (snd (addEdge \<lparr>vertices = 2, adj = replicate 50 [], lights = replicate 50 \<lparr>red = 0, green = 1, yellow = 0\<rparr>,
                names = replicate 50 [], lat = replicate 50 0, lon = replicate 50 0\<rparr> 1 1 4)) ! 1
       = [\<lparr>to = 1, weight = 4\<rparr>, \<lparr>to = 1, weight = 4\<rparr>]
   \<and> adj (snd (addEdge \<lparr>vertices = 2, adj = replicate 50 [], lights = replicate 50 \<lparr>red = 0, green = 1, yellow = 0\<rparr>,
                names = replicate 50 [], lat = replicate 50 0, lon = replicate 50 0\<rparr> 1 1 4)) ! 0
       = []"
  using addEdge_self_loop [of "\<lparr>vertices = 2, adj = replicate 50 [], lights = replicate 50 \<lparr>red = 0, green = 1, yellow = 0\<rparr>,
                names = replicate 50 [], lat = replicate 50 0, lon = replicate 50 0\<rparr>" 1 4]
  by (simp add: MAX_c_def)

section \<open>Properties of the indexed min-heap\<close>

lemma minHeapify_hswap:
  "minHeapify h idx =
     (if smallest_of h idx \<noteq> idx then minHeapify (hswap h (smallest_of h idx) idx) (smallest_of h idx)
      else h)"
  by (subst minHeapify.simps) (simp add: Let_def hswap_def vtx_def node_at_def)

lemma decreaseKey_loop_hswap:
  "decreaseKey_loop h i =
     (if i \<noteq> 0 \<and> key h i < key h ((i - 1) div 2)
      then decreaseKey_loop (hswap h i ((i - 1) div 2)) ((i - 1) div 2)
      else h)"
  by (subst decreaseKey_loop.simps) (simp add: Let_def hswap_def vtx_def key_def node_at_def)

lemma winv_len: "winv n h \<Longrightarrow> size_h h \<le> n \<and> length (pos h) = n \<and> length (arr h) = n"
  unfolding winv_def by blast

lemma winv_slot:
  "winv n h \<Longrightarrow> i < size_h h \<Longrightarrow> arr h ! i \<noteq> None \<and> vtx h i < n \<and> pos h ! vtx h i = int i"
  unfolding winv_def by blast

lemma winv_index:
  "winv n h \<Longrightarrow> v < n \<Longrightarrow> pos h ! v \<noteq> - 1 \<Longrightarrow>
     0 \<le> pos h ! v \<and> nat (pos h ! v) < size_h h \<and> vtx h (nat (pos h ! v)) = v"
  unfolding winv_def by blast

lemma winv_vtx_inj:
  assumes "winv n h" "a < size_h h" "b < size_h h" "vtx h a = vtx h b"
  shows "a = b"
proof -
  have "pos h ! vtx h a = int a"
    using winv_slot [OF assms(1,2)] by blast
  moreover have "pos h ! vtx h b = int b"
    using winv_slot [OF assms(1,3)] by blast
  ultimately have "int a = int b" using assms(4) by metis
  then show ?thesis by (rule int_int_eq [THEN iffD1])
qed

lemma hswap_size [simp]: "size_h (hswap h a b) = size_h h"
  by (simp add: hswap_def)

lemma hswap_key:
  assumes "winv n h" "a < size_h h" "b < size_h h"
  shows "key (hswap h a b) i = (if i = a then key h b else if i = b then key h a else key h i)"
proof -
  have "a < length (arr h)" "b < length (arr h)"
    using winv_len [OF assms(1)] assms(2,3) by auto
  then show ?thesis
    by (auto simp: hswap_def key_def node_at_def swapHeapNode_def Let_def nth_list_update)
qed

lemma hswap_vtx:
  assumes "winv n h" "a < size_h h" "b < size_h h"
  shows "vtx (hswap h a b) i = (if i = a then vtx h b else if i = b then vtx h a else vtx h i)"
proof -
  have "a < length (arr h)" "b < length (arr h)"
    using winv_len [OF assms(1)] assms(2,3) by auto
  then show ?thesis
    by (auto simp: hswap_def vtx_def node_at_def swapHeapNode_def Let_def nth_list_update)
qed

lemma hswap_pos:
  assumes "winv n h" "a < size_h h" "b < size_h h"
  shows "pos (hswap h a b) ! v =
           (if v = vtx h b then int a else if v = vtx h a then int b else pos h ! v)"
proof -
  have "vtx h a < length (pos h)" "vtx h b < length (pos h)"
    using winv_len [OF assms(1)] winv_slot [OF assms(1,2)] winv_slot [OF assms(1,3)] by auto
  then show ?thesis
    by (auto simp: hswap_def nth_list_update)
qed

lemma hswap_arr_None:
  assumes "winv n h" "a < size_h h" "b < size_h h" "i < size_h h"
  shows "arr (hswap h a b) ! i \<noteq> None"
proof -
  have "a < length (arr h)" "b < length (arr h)" "i < length (arr h)"
    using winv_len [OF assms(1)] assms(2,3,4) by auto
  moreover have "arr h ! a \<noteq> None" "arr h ! b \<noteq> None" "arr h ! i \<noteq> None"
    using winv_slot [OF assms(1)] assms(2,3,4) by blast+
  ultimately show ?thesis
    by (auto simp: hswap_def swapHeapNode_def Let_def nth_list_update)
qed

lemma hswap_winv:
  assumes "winv n h" "a < size_h h" "b < size_h h"
  shows "winv n (hswap h a b)"
proof -
  have len: "size_h (hswap h a b) \<le> n" "length (pos (hswap h a b)) = n"
    "length (arr (hswap h a b)) = n"
    using winv_len [OF assms(1)] by (simp_all add: hswap_def swapHeapNode_def Let_def)
  have slots: "arr (hswap h a b) ! i \<noteq> None \<and> vtx (hswap h a b) i < n
      \<and> pos (hswap h a b) ! vtx (hswap h a b) i = int i" if "i < size_h (hswap h a b)" for i
  proof -
    have i: "i < size_h h" using that by simp
    have inj: "vtx h i = vtx h a \<Longrightarrow> i = a" "vtx h i = vtx h b \<Longrightarrow> i = b"
      "vtx h a = vtx h b \<Longrightarrow> a = b"
      using winv_vtx_inj [OF assms(1)] i assms(2,3) by blast+
    show ?thesis
      using hswap_arr_None [OF assms i] winv_slot [OF assms(1) i] winv_slot [OF assms(1,2)]
        winv_slot [OF assms(1,3)] inj
      by (auto simp: hswap_vtx [OF assms] hswap_pos [OF assms])
  qed
  have index: "0 \<le> pos (hswap h a b) ! v \<and> nat (pos (hswap h a b) ! v) < size_h (hswap h a b)
      \<and> vtx (hswap h a b) (nat (pos (hswap h a b) ! v)) = v"
    if "v < n" "pos (hswap h a b) ! v \<noteq> - 1" for v
  proof -
    consider "v = vtx h b" | "v \<noteq> vtx h b" "v = vtx h a" | "v \<noteq> vtx h b" "v \<noteq> vtx h a"
      by blast
    then show ?thesis
    proof cases
      case 1
      then show ?thesis
        using assms(2,3) by (simp add: hswap_vtx [OF assms] hswap_pos [OF assms])
    next
      case 2
      then show ?thesis
        using assms(2,3) by (auto simp add: hswap_vtx [OF assms] hswap_pos [OF assms])
    next
      case 3
      then have p: "pos (hswap h a b) ! v = pos h ! v"
        by (simp add: hswap_pos [OF assms])
      then have q: "0 \<le> pos h ! v" "nat (pos h ! v) < size_h h" "vtx h (nat (pos h ! v)) = v"
        using winv_index [OF assms(1) that(1)] that(2) by auto
      then have "nat (pos h ! v) \<noteq> a" "nat (pos h ! v) \<noteq> b"
        using 3 by auto
      then show ?thesis
        using p q by (simp add: hswap_vtx [OF assms])
    qed
  qed
  show ?thesis
    unfolding winv_def using len slots index by blast
qed

lemma hswap_hmap:
  assumes "winv n h" "a < size_h h" "b < size_h h" "v < n"
  shows "hmap (hswap h a b) v = hmap h v"
proof -
  have pa: "pos h ! vtx h a = int a" and pb: "pos h ! vtx h b = int b"
    using winv_slot [OF assms(1,2)] winv_slot [OF assms(1,3)] by auto
  consider "v = vtx h b" | "v \<noteq> vtx h b" "v = vtx h a" | "v \<noteq> vtx h b" "v \<noteq> vtx h a"
    by blast
  then show ?thesis
  proof cases
    case 1
    then show ?thesis
      using pb by (simp add: hmap_def hswap_pos [OF assms(1-3)] hswap_key [OF assms(1-3)])
  next
    case 2
    then show ?thesis
      using pa by (auto simp add: hmap_def hswap_pos [OF assms(1-3)] hswap_key [OF assms(1-3)])
  next
    case 3
    show ?thesis
    proof (cases "pos h ! v = - 1")
      case True
      then show ?thesis using 3 by (simp add: hmap_def hswap_pos [OF assms(1-3)])
    next
      case False
      then have q: "0 \<le> pos h ! v" "nat (pos h ! v) < size_h h" "vtx h (nat (pos h ! v)) = v"
        using winv_index [OF assms(1,4)] by auto
      then have "nat (pos h ! v) \<noteq> a" "nat (pos h ! v) \<noteq> b"
        using 3 by auto
      then show ?thesis
        using 3 by (simp add: hmap_def hswap_pos [OF assms(1-3)] hswap_key [OF assms(1-3)])
    qed
  qed
qed

lemma minHeapify_induct [consumes 0, case_names step]:
  assumes "\<And>h idx. (smallest_of h idx \<noteq> idx \<Longrightarrow>
              P (hswap h (smallest_of h idx) idx) (smallest_of h idx)) \<Longrightarrow> P h idx"
  shows "P h idx"
proof (induction h idx rule: minHeapify.induct)
  case (1 h idx)
  show ?case
  proof (rule assms)
    assume "smallest_of h idx \<noteq> idx"
    then show "P (hswap h (smallest_of h idx) idx) (smallest_of h idx)"
      using "1.IH" [OF refl _ refl refl refl]
      by (simp add: hswap_def vtx_def node_at_def)
  qed
qed

lemma decreaseKey_loop_induct [consumes 0, case_names step]:
  assumes "\<And>h i. (i \<noteq> 0 \<Longrightarrow> key h i < key h ((i - 1) div 2) \<Longrightarrow>
              P (hswap h i ((i - 1) div 2)) ((i - 1) div 2)) \<Longrightarrow> P h i"
  shows "P h i"
proof (induction h i rule: decreaseKey_loop.induct)
  case (1 h i)
  show ?case
  proof (rule assms)
    assume "i \<noteq> 0" "key h i < key h ((i - 1) div 2)"
    then show "P (hswap h i ((i - 1) div 2)) ((i - 1) div 2)"
      using "1.IH" [OF _ refl refl refl]
      by (simp add: hswap_def vtx_def key_def node_at_def)
  qed
qed

lemma smallest_of_range:
  "smallest_of h idx \<noteq> idx \<Longrightarrow> smallest_of h idx < size_h h \<and> idx < smallest_of h idx"
  using smallest_of_cases [of h idx] by auto

lemma minHeapify_winv: "winv n h \<Longrightarrow> winv n (minHeapify h idx)"
proof (induction h idx rule: minHeapify_induct)
  case (step h idx)
  show ?case
  proof (cases "smallest_of h idx = idx")
    case True
    then show ?thesis using step.prems by (subst minHeapify_hswap) simp
  next
    case False
    then have "winv n (hswap h (smallest_of h idx) idx)"
      using hswap_winv [OF step.prems] smallest_of_range [OF False] by simp
    then show ?thesis
      using step.IH False by (subst minHeapify_hswap) simp
  qed
qed

lemma minHeapify_hmap: "winv n h \<Longrightarrow> v < n \<Longrightarrow> hmap (minHeapify h idx) v = hmap h v"
proof (induction h idx rule: minHeapify_induct)
  case (step h idx)
  show ?case
  proof (cases "smallest_of h idx = idx")
    case True
    then show ?thesis by (subst minHeapify_hswap) simp
  next
    case False
    have r: "smallest_of h idx < size_h h" "idx < size_h h"
      using smallest_of_range [OF False] by simp_all
    have "hmap (minHeapify (hswap h (smallest_of h idx) idx) (smallest_of h idx)) v
            = hmap (hswap h (smallest_of h idx) idx) v"
      using step.IH [OF False hswap_winv [OF step.prems(1) r] step.prems(2)] .
    also have "\<dots> = hmap h v"
      using hswap_hmap [OF step.prems(1) r step.prems(2)] .
    finally show ?thesis
      using False by (subst minHeapify_hswap) simp
  qed
qed

lemma decreaseKey_loop_winv: "winv n h \<Longrightarrow> i < size_h h \<Longrightarrow> winv n (decreaseKey_loop h i)"
proof (induction h i rule: decreaseKey_loop_induct)
  case (step h i)
  show ?case
  proof (cases "i \<noteq> 0 \<and> key h i < key h ((i - 1) div 2)")
    case False
    then show ?thesis using step.prems by (subst decreaseKey_loop_hswap) auto
  next
    case True
    have r: "i < size_h h" "(i - 1) div 2 < size_h h"
      using step.prems(2) by auto
    have "winv n (decreaseKey_loop (hswap h i ((i - 1) div 2)) ((i - 1) div 2))"
      using step.IH [OF _ _ hswap_winv [OF step.prems(1) r]] True r by simp
    then show ?thesis
      using True by (subst decreaseKey_loop_hswap) simp
  qed
qed

lemma decreaseKey_loop_hmap:
  "winv n h \<Longrightarrow> i < size_h h \<Longrightarrow> v < n \<Longrightarrow> hmap (decreaseKey_loop h i) v = hmap h v"
proof (induction h i rule: decreaseKey_loop_induct)
  case (step h i)
  show ?case
  proof (cases "i \<noteq> 0 \<and> key h i < key h ((i - 1) div 2)")
    case False
    then show ?thesis by (subst decreaseKey_loop_hswap) auto
  next
    case True
    have r: "i < size_h h" "(i - 1) div 2 < size_h h"
      using step.prems(2) by auto
    have "hmap (decreaseKey_loop (hswap h i ((i - 1) div 2)) ((i - 1) div 2)) v
            = hmap (hswap h i ((i - 1) div 2)) v"
      using step.IH [OF _ _ hswap_winv [OF step.prems(1) r] _ step.prems(3)] True r by simp
    also have "\<dots> = hmap h v"
      using hswap_hmap [OF step.prems(1) r step.prems(3)] .
    finally show ?thesis
      using True by (subst decreaseKey_loop_hswap) simp
  qed
qed

lemma parent_iff: "0 < i \<Longrightarrow> (i - 1) div 2 = k \<longleftrightarrow> i = 2 * k + 1 \<or> i = 2 * k + 2" for i k :: nat
  by arith

lemma smallest_of_le:
  "key h (smallest_of h k) \<le> key h k"
  "2 * k + 1 < size_h h \<Longrightarrow> key h (smallest_of h k) \<le> key h (2 * k + 1)"
  "2 * k + 2 < size_h h \<Longrightarrow> key h (smallest_of h k) \<le> key h (2 * k + 2)"
  by (auto simp: smallest_of_def Let_def key_def)

lemma ord_down_stop:
  assumes "ord_down h k" "smallest_of h k = k"
  shows "heap_ord h"
  unfolding heap_ord_def
proof (intro allI impI)
  fix i assume i: "i < size_h h" "0 < i"
  show "key h ((i - 1) div 2) \<le> key h i"
  proof (cases "(i - 1) div 2 = k")
    case False
    then show ?thesis using assms(1) i unfolding ord_down_def by blast
  next
    case True
    then have "i = 2 * k + 1 \<or> i = 2 * k + 2"
      using parent_iff [OF i(2)] by blast
    then have "key h (smallest_of h k) \<le> key h i"
      using smallest_of_le(2,3) [of k h] i(1) by auto
    then show ?thesis using True assms(2) by simp
  qed
qed

lemma ord_down_step:
  assumes w: "winv n h" and o: "ord_down h k" and s: "smallest_of h k \<noteq> k"
  shows "ord_down (hswap h (smallest_of h k) k) (smallest_of h k)"
proof -
  define s where "s = smallest_of h k"
  have r: "s < size_h h" "k < size_h h" "k < s"
    using smallest_of_range [OF s] by (simp_all add: s_def)
  have ps: "(s - 1) div 2 = k"
    using smallest_of_cases [of h k] s by (auto simp: s_def)
  have sk: "key h s \<le> key h k"
    using smallest_of_le(1) [of h k] by (simp add: s_def)
  have K: "key (hswap h s k) i = (if i = s then key h k else if i = k then key h s else key h i)" for i
    using hswap_key [OF w r(1,2)] .
  have o1: "key h ((i - 1) div 2) \<le> key h i" if "i < size_h h" "0 < i" "(i - 1) div 2 \<noteq> k" for i
    using o that unfolding ord_down_def by blast
  have o2: "key h ((k - 1) div 2) \<le> key h i" if "i < size_h h" "0 < i" "0 < k" "(i - 1) div 2 = k" for i
    using o that unfolding ord_down_def by blast
  have part1: "key (hswap h s k) ((i - 1) div 2) \<le> key (hswap h s k) i"
    if i: "i < size_h h" "0 < i" "(i - 1) div 2 \<noteq> s" for i
  proof -
    consider "i = s" | "i = k" | "i \<noteq> s" "i \<noteq> k" "(i - 1) div 2 = k"
      | "i \<noteq> s" "i \<noteq> k" "(i - 1) div 2 \<noteq> k"
      by blast
    then show ?thesis
    proof cases
      case 1
      then show ?thesis using ps r(3) sk by (simp add: K)
    next
      case 2
      then have "(k - 1) div 2 \<noteq> s" "(k - 1) div 2 \<noteq> k"
        using r(3) i(2) by auto
      moreover have "key h ((k - 1) div 2) \<le> key h s"
        using o2 [OF r(1) _ _ ps] r(3) 2 i(2) by simp
      ultimately show ?thesis using 2 r(3) by (simp add: K)
    next
      case 3
      then have "i = 2 * k + 1 \<or> i = 2 * k + 2"
        using parent_iff [OF i(2)] by blast
      then have "key h s \<le> key h i"
        using smallest_of_le(2,3) [of k h] i(1) by (auto simp: s_def)
      then show ?thesis using 3 r(3) by (simp add: K)
    next
      case 4
      then show ?thesis using o1 [OF i(1,2)] i(3) by (simp add: K)
    qed
  qed
  have part2: "key (hswap h s k) ((s - 1) div 2) \<le> key (hswap h s k) i"
    if i: "i < size_h h" "0 < i" "(i - 1) div 2 = s" for i
  proof -
    have "i \<noteq> s" "i \<noteq> k" "s \<noteq> k"
      using i r(3) by auto
    then show ?thesis
      using o1 [OF i(1,2)] i(3) ps by (simp add: K)
  qed
  show ?thesis
    unfolding ord_down_def s_def [symmetric] using part1 part2 by simp
qed

lemma minHeapify_ord: "winv n h \<Longrightarrow> ord_down h k \<Longrightarrow> heap_ord (minHeapify h k)"
proof (induction h k rule: minHeapify_induct)
  case (step h k)
  show ?case
  proof (cases "smallest_of h k = k")
    case True
    then show ?thesis
      using ord_down_stop [OF step.prems(2)] by (subst minHeapify_hswap) simp
  next
    case False
    have r: "smallest_of h k < size_h h" "k < size_h h"
      using smallest_of_range [OF False] by simp_all
    show ?thesis
      using step.IH [OF False hswap_winv [OF step.prems(1) r] ord_down_step [OF step.prems False]] False
      by (subst minHeapify_hswap) simp
  qed
qed

lemma ord_up_stop:
  assumes "ord_up h k" "\<not> (k \<noteq> 0 \<and> key h k < key h ((k - 1) div 2))"
  shows "heap_ord h"
  unfolding heap_ord_def
proof (intro allI impI)
  fix i assume i: "i < size_h h" "0 < i"
  show "key h ((i - 1) div 2) \<le> key h i"
  proof (cases "i = k")
    case False
    then show ?thesis using assms(1) i unfolding ord_up_def by blast
  next
    case True
    then show ?thesis using assms(2) i by auto
  qed
qed

lemma ord_up_step:
  assumes w: "winv n h" and o: "ord_up h k" and k: "k < size_h h" "k \<noteq> 0"
    and lt: "key h k < key h ((k - 1) div 2)"
  shows "ord_up (hswap h k ((k - 1) div 2)) ((k - 1) div 2)"
proof -
  define p where "p = (k - 1) div 2"
  have r: "p < size_h h" "p < k"
    using k by (auto simp: p_def)
  have pk: "(k - 1) div 2 = p"
    by (simp add: p_def)
  have lt': "key h k < key h p"
    using lt by (simp add: p_def)
  have K: "key (hswap h k p) i = (if i = k then key h p else if i = p then key h k else key h i)" for i
    using hswap_key [OF w k(1) r(1)] .
  have o1: "key h ((i - 1) div 2) \<le> key h i" if "i < size_h h" "0 < i" "i \<noteq> k" for i
    using o that unfolding ord_up_def by blast
  have o2: "key h p \<le> key h i" if "i < size_h h" "0 < i" "(i - 1) div 2 = k" for i
    using o that k(2) unfolding ord_up_def p_def by blast
  have part1: "key (hswap h k p) ((i - 1) div 2) \<le> key (hswap h k p) i"
    if i: "i < size_h h" "0 < i" "i \<noteq> p" for i
  proof -
    consider "i = k" | "i \<noteq> k" "(i - 1) div 2 = p" | "i \<noteq> k" "(i - 1) div 2 = k"
      | "i \<noteq> k" "(i - 1) div 2 \<noteq> p" "(i - 1) div 2 \<noteq> k"
      by blast
    then show ?thesis
    proof cases
      case 1
      then show ?thesis using lt' r(2) pk by (simp add: K)
    next
      case 2
      then have "key h p \<le> key h i"
        using o1 [OF i(1,2)] by simp
      then show ?thesis using 2 i(3) lt' r(2) by (simp add: K)
    next
      case 3
      then have "key h p \<le> key h i"
        using o2 [OF i(1,2)] by simp
      then show ?thesis using 3 i(3) r(2) by (simp add: K)
    next
      case 4
      then show ?thesis using o1 [OF i(1,2)] i(3) by (simp add: K)
    qed
  qed
  have part2: "key (hswap h k p) ((p - 1) div 2) \<le> key (hswap h k p) i"
    if i: "i < size_h h" "0 < i" "0 < p" "(i - 1) div 2 = p" for i
  proof -
    have pp: "(p - 1) div 2 \<noteq> k" "(p - 1) div 2 \<noteq> p"
      using r(2) i(3) by auto
    have a: "key h ((p - 1) div 2) \<le> key h p"
      using o1 [OF r(1) i(3)] r(2) by simp
    show ?thesis
    proof (cases "i = k")
      case True
      then show ?thesis using a pp by (simp add: K)
    next
      case False
      then have "key h p \<le> key h i"
        using o1 [OF i(1,2)] i(4) by simp
      moreover have "i \<noteq> p" using i(2,4) by auto
      ultimately show ?thesis using a pp False by (simp add: K)
    qed
  qed
  show ?thesis
    unfolding ord_up_def pk using part1 part2 by simp
qed

lemma decreaseKey_loop_ord:
  "winv n h \<Longrightarrow> k < size_h h \<Longrightarrow> ord_up h k \<Longrightarrow> heap_ord (decreaseKey_loop h k)"
proof (induction h k rule: decreaseKey_loop_induct)
  case (step h k)
  show ?case
  proof (cases "k \<noteq> 0 \<and> key h k < key h ((k - 1) div 2)")
    case False
    then show ?thesis
      using ord_up_stop [OF step.prems(3)] by (subst decreaseKey_loop_hswap) auto
  next
    case True
    have r: "k < size_h h" "(k - 1) div 2 < size_h h"
      using step.prems(2) by auto
    have "heap_ord (decreaseKey_loop (hswap h k ((k - 1) div 2)) ((k - 1) div 2))"
      using step.IH [OF _ _ hswap_winv [OF step.prems(1) r] _
          ord_up_step [OF step.prems(1,3,2)]] True r by simp
    then show ?thesis
      using True by (subst decreaseKey_loop_hswap) simp
  qed
qed

lemma heap_ord_root:
  assumes "heap_ord h" "i < size_h h"
  shows "key h 0 \<le> key h i"
  using assms(2)
proof (induction i rule: less_induct)
  case (less i)
  show ?case
  proof (cases "i = 0")
    case True
    then show ?thesis by simp
  next
    case False
    then have "key h ((i - 1) div 2) \<le> key h i"
      using assms(1) less.prems unfolding heap_ord_def by simp
    moreover have "key h 0 \<le> key h ((i - 1) div 2)"
      using less.IH [of "(i - 1) div 2"] less.prems False by auto
    ultimately show ?thesis by simp
  qed
qed

lemma decreaseKey_set_dist:
  "decreaseKey h v d =
     (if pos h ! v = - 1 then h else decreaseKey_loop (set_dist h (nat (pos h ! v)) d) (nat (pos h ! v)))"
  by (simp add: decreaseKey_def Let_def)

lemma set_dist_simps [simp]:
  "size_h (set_dist h i d) = size_h h"
  "pos (set_dist h i d) = pos h"
  "length (arr (set_dist h i d)) = length (arr h)"
  by (simp_all add: set_dist_def)

lemma set_dist_key:
  "i < length (arr h) \<Longrightarrow> key (set_dist h i d) j = (if j = i then d else key h j)"
  by (simp add: set_dist_def key_def node_at_def nth_list_update)

lemma set_dist_vtx:
  "i < length (arr h) \<Longrightarrow> vtx (set_dist h i d) j = vtx h j"
  by (simp add: set_dist_def vtx_def node_at_def nth_list_update)

lemma set_dist_arr_None:
  "arr h ! j \<noteq> None \<Longrightarrow> arr (set_dist h i d) ! j \<noteq> None"
  by (cases "i < length (arr h)") (auto simp: set_dist_def nth_list_update not_less list_update_beyond)

lemma set_dist_winv:
  assumes "winv n h" "i < size_h h"
  shows "winv n (set_dist h i d)"
proof -
  have l: "i < length (arr h)"
    using winv_len [OF assms(1)] assms(2) by simp
  show ?thesis
    unfolding winv_def
    using winv_len [OF assms(1)] winv_slot [OF assms(1)] winv_index [OF assms(1)]
    by (simp add: set_dist_vtx [OF l] set_dist_arr_None)
qed

lemma set_dist_hmap:
  assumes "winv n h" "v < n" "pos h ! v \<noteq> - 1" "x < n"
  shows "hmap (set_dist h (nat (pos h ! v)) d) x = (if x = v then Some d else hmap h x)"
proof -
  note iv = winv_index [OF assms(1,2,3)]
  have l: "nat (pos h ! v) < length (arr h)"
    using winv_len [OF assms(1)] iv by simp
  show ?thesis
  proof (cases "x = v")
    case True
    then show ?thesis using assms(3) by (simp add: hmap_def set_dist_key [OF l])
  next
    case False
    show ?thesis
    proof (cases "pos h ! x = - 1")
      case True
      then show ?thesis using False by (simp add: hmap_def)
    next
      case px: False
      note ix = winv_index [OF assms(1,4) px]
      have "nat (pos h ! x) \<noteq> nat (pos h ! v)"
        using ix iv False by metis
      then show ?thesis using False px by (simp add: hmap_def set_dist_key [OF l])
    qed
  qed
qed

lemma set_dist_ord_up:
  assumes "winv n h" "heap_ord h" "i < size_h h" "d \<le> key h i"
  shows "ord_up (set_dist h i d) i"
proof -
  have l: "i < length (arr h)"
    using winv_len [OF assms(1)] assms(3) by simp
  have o: "key h ((j - 1) div 2) \<le> key h j" if "j < size_h h" "0 < j" for j
    using assms(2) that unfolding heap_ord_def by blast
  have part1: "key (set_dist h i d) ((j - 1) div 2) \<le> key (set_dist h i d) j"
    if "j < size_h h" "0 < j" "j \<noteq> i" for j
    using o [OF that(1,2)] that(3) assms(4) by (auto simp: set_dist_key [OF l])
  have part2: "key (set_dist h i d) ((i - 1) div 2) \<le> key (set_dist h i d) j"
    if j: "j < size_h h" "0 < j" "0 < i" "(j - 1) div 2 = i" for j
  proof -
    have "j \<noteq> i" "(i - 1) div 2 \<noteq> i"
      using j by auto
    moreover have "key h ((i - 1) div 2) \<le> key h j"
      using o [OF assms(3) j(3)] o [OF j(1,2)] j(4) by simp
    ultimately show ?thesis by (simp add: set_dist_key [OF l])
  qed
  show ?thesis
    unfolding ord_up_def using part1 part2 by simp
qed

lemma decreaseKey_absent: "pos h ! v = - 1 \<Longrightarrow> decreaseKey h v d = h"
  by (simp add: decreaseKey_set_dist)

lemma decreaseKey_winv:
  assumes "winv n h" "v < n"
  shows "winv n (decreaseKey h v d)"
proof (cases "pos h ! v = - 1")
  case True
  then show ?thesis using assms(1) by (simp add: decreaseKey_absent)
next
  case False
  define i where "i = nat (pos h ! v)"
  have i: "i < size_h h"
    using winv_index [OF assms False] by (simp add: i_def)
  have "winv n (decreaseKey_loop (set_dist h i d) i)"
    by (rule decreaseKey_loop_winv [OF set_dist_winv [OF assms(1) i]]) (simp add: i)
  then show ?thesis
    using False by (simp add: decreaseKey_set_dist i_def)
qed

lemma decreaseKey_hmap:
  assumes "winv n h" "v < n" "pos h ! v \<noteq> - 1" "x < n"
  shows "hmap (decreaseKey h v d) x = (if x = v then Some d else hmap h x)"
proof -
  define i where "i = nat (pos h ! v)"
  have i: "i < size_h h"
    using winv_index [OF assms(1,2,3)] by (simp add: i_def)
  have "hmap (decreaseKey_loop (set_dist h i d) i) x = hmap (set_dist h i d) x"
    by (rule decreaseKey_loop_hmap [OF set_dist_winv [OF assms(1) i] _ assms(4)]) (simp add: i)
  then have "hmap (decreaseKey h v d) x = hmap (set_dist h (nat (pos h ! v)) d) x"
    using assms(3) by (simp add: decreaseKey_set_dist i_def)
  then show ?thesis
    using set_dist_hmap [OF assms] by simp
qed

lemma decreaseKey_ord:
  assumes "winv n h" "heap_ord h" "v < n" "pos h ! v \<noteq> - 1" "d \<le> key h (nat (pos h ! v))"
  shows "heap_ord (decreaseKey h v d)"
proof -
  define i where "i = nat (pos h ! v)"
  have i: "i < size_h h"
    using winv_index [OF assms(1,3,4)] by (simp add: i_def)
  have d: "d \<le> key h i"
    using assms(5) by (simp add: i_def)
  have "heap_ord (decreaseKey_loop (set_dist h i d) i)"
    by (rule decreaseKey_loop_ord [OF set_dist_winv [OF assms(1) i] _ set_dist_ord_up [OF assms(1,2) i d]])
      (simp add: i)
  then show ?thesis
    using assms(4) by (simp add: decreaseKey_set_dist i_def)
qed

lemma extractMin_drop_root:
  "extractMin h = (if size_h h = 0 then (None, h) else (arr h ! 0, minHeapify (drop_root h) 0))"
  by (simp add: extractMin_def isEmpty_def Let_def drop_root_def vtx_def node_at_def)

lemma drop_root_simps:
  assumes "winv n h" "0 < size_h h"
  shows "size_h (drop_root h) = size_h h - 1"
    and "length (pos (drop_root h)) = n"
    and "length (arr (drop_root h)) = n"
    and "pos (drop_root h) ! v =
           (if v = vtx h 0 then - 1 else if v = vtx h (size_h h - 1) then 0 else pos h ! v)"
    and "i < size_h h \<Longrightarrow> node_at (drop_root h) i = (if i = 0 then node_at h (size_h h - 1) else node_at h i)"
proof -
  have l: "0 < length (arr h)" "vtx h 0 < length (pos h)" "vtx h (size_h h - 1) < length (pos h)"
    using winv_len [OF assms(1)] winv_slot [OF assms(1), of 0]
      winv_slot [OF assms(1), of "size_h h - 1"] assms(2) by auto
  show "size_h (drop_root h) = size_h h - 1"
    by (simp add: drop_root_def)
  show "length (pos (drop_root h)) = n" "length (arr (drop_root h)) = n"
    using winv_len [OF assms(1)] by (simp_all add: drop_root_def)
  show "pos (drop_root h) ! v =
           (if v = vtx h 0 then - 1 else if v = vtx h (size_h h - 1) then 0 else pos h ! v)"
    using l by (auto simp: drop_root_def nth_list_update)
  show "i < size_h h \<Longrightarrow> node_at (drop_root h) i = (if i = 0 then node_at h (size_h h - 1) else node_at h i)"
    using l by (auto simp: drop_root_def node_at_def nth_list_update)
qed

lemma drop_root_last:
  assumes "winv n h" "0 < size_h h" "l = size_h h - 1"
  shows "size_h (drop_root h) = l"
    and "pos (drop_root h) ! v = (if v = vtx h 0 then - 1 else if v = vtx h l then 0 else pos h ! v)"
    and "i < size_h h \<Longrightarrow> node_at (drop_root h) i = (if i = 0 then node_at h l else node_at h i)"
    and "i < size_h h \<Longrightarrow> vtx (drop_root h) i = (if i = 0 then vtx h l else vtx h i)"
    and "i < size_h h \<Longrightarrow> key (drop_root h) i = (if i = 0 then key h l else key h i)"
    and "i < size_h h \<Longrightarrow> arr (drop_root h) ! i = (if i = 0 then arr h ! l else arr h ! i)"
    and "l < size_h h"
    and "pos h ! vtx h l = int l"
proof -
  note d = drop_root_simps [OF assms(1,2)]
  show "size_h (drop_root h) = l"
    using d(1) assms(3) by simp
  show "pos (drop_root h) ! v = (if v = vtx h 0 then - 1 else if v = vtx h l then 0 else pos h ! v)"
    unfolding assms(3) by (rule d(4))
  show n: "i < size_h h \<Longrightarrow> node_at (drop_root h) i = (if i = 0 then node_at h l else node_at h i)"
    unfolding assms(3) by (rule d(5))
  show "i < size_h h \<Longrightarrow> vtx (drop_root h) i = (if i = 0 then vtx h l else vtx h i)"
    using n by (simp add: vtx_def)
  show "i < size_h h \<Longrightarrow> key (drop_root h) i = (if i = 0 then key h l else key h i)"
    using n by (simp add: key_def)
  show "i < size_h h \<Longrightarrow> arr (drop_root h) ! i = (if i = 0 then arr h ! l else arr h ! i)"
    using winv_len [OF assms(1)] by (simp add: drop_root_def assms(3) nth_list_update)
  show l: "l < size_h h"
    using assms(2,3) by simp
  show "pos h ! vtx h l = int l"
    using winv_slot [OF assms(1) l] by blast
qed

lemma drop_root_winv:
  assumes "winv n h" "0 < size_h h"
  shows "winv n (drop_root h)"
proof -
  define l where "l = size_h h - 1"
  note d = drop_root_last [OF assms l_def]
  note l = d(7)
  have z: "0 < size_h h" by (rule assms(2))
  have slots: "arr (drop_root h) ! i \<noteq> None \<and> vtx (drop_root h) i < n
      \<and> pos (drop_root h) ! vtx (drop_root h) i = int i" if "i < size_h (drop_root h)" for i
  proof -
    have i: "i < size_h h" "i \<noteq> l" using that l by (simp_all add: d(1))
    show ?thesis
    proof (cases "i = 0")
      case True
      have "vtx h l \<noteq> vtx h 0"
        using winv_vtx_inj [OF assms(1) l z] i(2) True by auto
      then show ?thesis
        using True winv_slot [OF assms(1) l] by (simp add: d(4) [OF z] d(6) [OF z] d(2))
    next
      case False
      have "vtx h i \<noteq> vtx h 0" "vtx h i \<noteq> vtx h l"
        using winv_vtx_inj [OF assms(1) i(1) z] winv_vtx_inj [OF assms(1) i(1) l] i(2) False by auto
      then show ?thesis
        using False winv_slot [OF assms(1) i(1)] by (simp add: d(4) [OF i(1)] d(6) [OF i(1)] d(2))
    qed
  qed
  have index: "0 \<le> pos (drop_root h) ! v \<and> nat (pos (drop_root h) ! v) < size_h (drop_root h)
      \<and> vtx (drop_root h) (nat (pos (drop_root h) ! v)) = v"
    if v: "v < n" "pos (drop_root h) ! v \<noteq> - 1" for v
  proof -
    have nr: "v \<noteq> vtx h 0" using v(2) by (auto simp: d(2))
    show ?thesis
    proof (cases "v = vtx h l")
      case True
      have "l \<noteq> 0"
      proof
        assume "l = 0"
        with True nr show False by simp
      qed
      then have "0 < l" by simp
      then show ?thesis
        using True nr by (simp add: d(2) d(1) d(4) [OF z])
    next
      case False
      then have p: "pos (drop_root h) ! v = pos h ! v"
        using nr by (simp add: d(2))
      then have q: "0 \<le> pos h ! v" "nat (pos h ! v) < size_h h" "vtx h (nat (pos h ! v)) = v"
        using winv_index [OF assms(1) v(1)] v(2) by auto
      then have "nat (pos h ! v) \<noteq> 0" "nat (pos h ! v) \<noteq> l"
        using nr False by auto
      moreover have "nat (pos h ! v) < l"
        using calculation(2) q(2) l by (simp add: l_def)
      ultimately show ?thesis
        using p q by (simp add: d(1) d(4) [OF q(2)])
    qed
  qed
  have "size_h (drop_root h) \<le> n"
    using d(1) l winv_len [OF assms(1)] by simp
  then show ?thesis
    unfolding winv_def using drop_root_simps(2,3) [OF assms] slots index by simp
qed

lemma drop_root_hmap:
  assumes "winv n h" "0 < size_h h" "v < n"
  shows "hmap (drop_root h) v = (if v = vtx h 0 then None else hmap h v)"
proof -
  define l where "l = size_h h - 1"
  note d = drop_root_last [OF assms(1,2) l_def]
  have z: "0 < size_h h" by (rule assms(2))
  show ?thesis
  proof (cases "v = vtx h 0")
    case True
    then show ?thesis by (simp add: hmap_def d(2))
  next
    case nr: False
    show ?thesis
    proof (cases "v = vtx h l")
      case True
      then show ?thesis
        using nr d(8) by (simp add: hmap_def d(2) d(5) [OF z])
    next
      case False
      show ?thesis
      proof (cases "pos h ! v = - 1")
        case True
        then show ?thesis using nr False by (simp add: hmap_def d(2))
      next
        case pv: False
        have q: "0 \<le> pos h ! v" "nat (pos h ! v) < size_h h" "vtx h (nat (pos h ! v)) = v"
          using winv_index [OF assms(1,3) pv] by auto
        then have "nat (pos h ! v) \<noteq> 0"
          using nr by auto
        then show ?thesis
          using nr False pv by (simp add: hmap_def d(2) d(5) [OF q(2)])
      qed
    qed
  qed
qed

lemma drop_root_ord:
  assumes "winv n h" "0 < size_h h" "heap_ord h"
  shows "ord_down (drop_root h) 0"
proof -
  note d = drop_root_simps [OF assms(1,2)]
  have "key (drop_root h) ((i - 1) div 2) \<le> key (drop_root h) i"
    if i: "i < size_h (drop_root h)" "0 < i" "(i - 1) div 2 \<noteq> 0" for i
  proof -
    have i': "i < size_h h" "(i - 1) div 2 < size_h h"
      using i(1) by (simp_all add: d(1))
    have "key h ((i - 1) div 2) \<le> key h i"
      using assms(3) i'(1) i(2) unfolding heap_ord_def by blast
    then show ?thesis
      using d(5) [OF i'(1)] d(5) [OF i'(2)] i(2,3) by (simp add: key_def)
  qed
  then show ?thesis
    unfolding ord_down_def by simp
qed

lemma extractMin_empty: "size_h h = 0 \<Longrightarrow> extractMin h = (None, h)"
  by (simp add: extractMin_drop_root)

lemma extractMin_props:
  assumes "hinv n h" "0 < size_h h"
  shows "fst (extractMin h) = Some (node_at h 0)"
    and "hinv n (snd (extractMin h))"
    and "size_h (snd (extractMin h)) = size_h h - 1"
    and "vtx h 0 < n"
    and "hmap h (vtx h 0) = Some (key h 0)"
    and "v < n \<Longrightarrow> hmap (snd (extractMin h)) v = (if v = vtx h 0 then None else hmap h v)"
    and "v < n \<Longrightarrow> hmap h v = Some d \<Longrightarrow> key h 0 \<le> d"
proof -
  have w: "winv n h" and o: "heap_ord h"
    using assms(1) by (simp_all add: hinv_def)
  note s = winv_slot [OF w assms(2)]
  have e: "extractMin h = (arr h ! 0, minHeapify (drop_root h) 0)"
    using assms(2) by (simp add: extractMin_drop_root)
  show "fst (extractMin h) = Some (node_at h 0)"
    using s by (auto simp: e node_at_def)
  show "hinv n (snd (extractMin h))"
    unfolding hinv_def e snd_conv
    using minHeapify_winv [OF drop_root_winv [OF w assms(2)]]
      minHeapify_ord [OF drop_root_winv [OF w assms(2)] drop_root_ord [OF w assms(2) o]]
    by simp
  show "size_h (snd (extractMin h)) = size_h h - 1"
    by (simp add: e drop_root_simps(1) [OF w assms(2)])
  show "vtx h 0 < n" using s by simp
  show "hmap h (vtx h 0) = Some (key h 0)"
    using s by (simp add: hmap_def)
  show "hmap (snd (extractMin h)) v = (if v = vtx h 0 then None else hmap h v)" if "v < n"
    using minHeapify_hmap [OF drop_root_winv [OF w assms(2)] that]
      drop_root_hmap [OF w assms(2) that]
    by (simp add: e)
  show "key h 0 \<le> d" if "v < n" "hmap h v = Some d"
  proof -
    have p: "pos h ! v \<noteq> - 1" "d = key h (nat (pos h ! v))"
      using that(2) by (auto simp: hmap_def split: if_splits)
    show ?thesis
      using heap_ord_root [OF o, of "nat (pos h ! v)"] winv_index [OF w that(1) p(1)] p(2) by simp
  qed
qed

section \<open>The heap that the search builds, and sequences of calls on it\<close>

lemma built_create: "built n 0 (createMinHeap n)"
  by (simp add: built_def createMinHeap_def)

lemma built_push:
  assumes "built n k h" "k < n"
  shows "built n (Suc k) (push_node h k)"
proof -
  have b: "size_h h = k" "length (pos h) = n" "length (arr h) = n"
    "\<And>i. i < k \<Longrightarrow> arr h ! i = Some \<lparr>v_node = i, dist_node = INF_c\<rparr> \<and> pos h ! i = int i"
    "\<And>i. k \<le> i \<Longrightarrow> i < n \<Longrightarrow> pos h ! i = - 1"
    using assms(1) unfolding built_def by blast+
  have p: "push_node h k =
      h\<lparr>arr := (arr h)[k := Some \<lparr>v_node = k, dist_node = INF_c\<rparr>], pos := (pos h)[k := int k],
        size_h := Suc k\<rparr>"
    by (simp add: push_node_def Let_def b(1))
  show ?thesis
    unfolding built_def p using b assms(2) by (auto simp: nth_list_update less_Suc_eq)
qed

lemma built_foldl:
  "k \<le> n \<Longrightarrow> built n k (foldl push_node (createMinHeap n) [0..<k])"
proof (induction k)
  case 0
  show ?case by (simp add: built_create)
next
  case (Suc k)
  then show ?case
    using built_push [of n k] by simp
qed

lemma built_winv:
  assumes "built n n h"
  shows "winv n h"
proof -
  have b: "size_h h = n" "length (pos h) = n" "length (arr h) = n"
    "\<And>i. i < n \<Longrightarrow> arr h ! i = Some \<lparr>v_node = i, dist_node = INF_c\<rparr> \<and> pos h ! i = int i"
    using assms unfolding built_def by blast+
  show ?thesis
    unfolding winv_def using b by (simp add: vtx_def node_at_def)
qed

lemma built_key: "built n n h \<Longrightarrow> i < n \<Longrightarrow> key h i = INF_c"
  unfolding built_def by (simp add: key_def node_at_def)

lemma built_hinv: "built n n h \<Longrightarrow> hinv n h"
  unfolding hinv_def heap_ord_def
  using built_winv [of n h] built_key [of n h] by (simp add: built_def)

lemma built_hmap: "built n n h \<Longrightarrow> v < n \<Longrightarrow> hmap h v = Some INF_c"
  using built_key [of n h v] by (simp add: hmap_def built_def)

lemma build_heap_props:
  "hinv n (build_heap n)"
  "size_h (build_heap n) = n"
  "v < n \<Longrightarrow> hmap (build_heap n) v = Some INF_c"
  "v < n \<Longrightarrow> pos (build_heap n) ! v = int v"
  using built_foldl [of n n] built_hinv [of n "build_heap n"] built_hmap [of n "build_heap n" v]
  by (simp_all add: build_heap_def built_def)

lemma hmap_None_iff: "hmap h v = None \<longleftrightarrow> pos h ! v = - 1"
  by (simp add: hmap_def)

lemma decreaseKey_hinv:
  assumes "hinv n h" "v < n" "pos h ! v \<noteq> - 1 \<longrightarrow> d \<le> key h (nat (pos h ! v))"
  shows "hinv n (decreaseKey h v d)"
proof (cases "pos h ! v = - 1")
  case True
  then show ?thesis using assms(1) by (simp add: decreaseKey_absent)
next
  case False
  have w: "winv n h" and o: "heap_ord h" using assms(1) by (simp_all add: hinv_def)
  show ?thesis
    unfolding hinv_def
    using decreaseKey_winv [OF w assms(2)] decreaseKey_ord [OF w o assms(2) False] assms(3) False
    by simp
qed

lemma decreaseKey_pos_absent:
  assumes "winv n h" "v < n" "x < n"
  shows "pos (decreaseKey h v d) ! x = - 1 \<longleftrightarrow> pos h ! x = - 1"
proof (cases "pos h ! v = - 1")
  case True
  then show ?thesis by (simp add: decreaseKey_absent)
next
  case False
  have "hmap (decreaseKey h v d) x = None \<longleftrightarrow> hmap h x = None"
    using decreaseKey_hmap [OF assms(1,2) False assms(3)] False by (simp add: hmap_None_iff)
  then show ?thesis by (simp add: hmap_None_iff)
qed

lemma extractMin_hinv: "hinv n h \<Longrightarrow> hinv n (snd (extractMin h))"
  using extractMin_props(2) [of n h] by (cases "size_h h = 0") (simp_all add: extractMin_empty)

lemma extractMin_pos_absent:
  assumes "hinv n h" "x < n"
  shows "pos (snd (extractMin h)) ! x = - 1 \<longleftrightarrow>
           pos h ! x = - 1 \<or> (case fst (extractMin h) of None \<Rightarrow> False | Some r \<Rightarrow> x = v_node r)"
proof (cases "size_h h = 0")
  case True
  then show ?thesis by (simp add: extractMin_empty)
next
  case False
  then have z: "0 < size_h h" by simp
  have "hmap (snd (extractMin h)) x = None \<longleftrightarrow> x = vtx h 0 \<or> hmap h x = None"
    using extractMin_props(6) [OF assms(1) z assms(2)] by simp
  then show ?thesis
    using extractMin_props(1) [OF assms(1) z] by (auto simp: hmap_None_iff vtx_def)
qed

lemma heap_after_inv:
  "hinv n h \<Longrightarrow> calls_ok n h cs \<Longrightarrow>
     hinv n (heap_after h cs) \<and>
     (\<forall>v < n. pos (heap_after h cs) ! v = - 1 \<longleftrightarrow> pos h ! v = - 1 \<or> v \<in> set (extracted h cs))"
proof (induction h cs rule: heap_after.induct)
  case (1 h)
  then show ?case by simp
next
  case (2 h v d cs)
  have ok: "v < n" "pos h ! v \<noteq> - 1 \<longrightarrow> d \<le> key h (nat (pos h ! v))"
    "calls_ok n (decreaseKey h v d) cs"
    using "2.prems"(2) by (simp_all add: key_def)
  have w: "winv n h" using "2.prems"(1) by (simp add: hinv_def)
  note ih = "2.IH" [OF decreaseKey_hinv [OF "2.prems"(1) ok(1,2)] ok(3)]
  show ?case
    using ih decreaseKey_pos_absent [OF w ok(1)] by simp
next
  case (3 h cs)
  have ok: "calls_ok n (snd (extractMin h)) cs"
    using "3.prems"(2) by simp
  note ih = "3.IH" [OF extractMin_hinv [OF "3.prems"(1)] ok]
  show ?case
    using ih extractMin_pos_absent [OF "3.prems"(1)]
    by (auto split: option.splits)
qed

text \<open>
  Claim C3, as stated: after any sequence of \<^verbatim>\<open>decreaseKey\<close> and \<^verbatim>\<open>extractMin\<close> calls
  \<^verbatim>\<open>extractMin\<close> returns an entry of minimum distance. It fails for a call of
  \<^verbatim>\<open>decreaseKey\<close> that raises a distance: the function stores the new distance and only
  sifts the entry up. On the heap built for two junctions, \<^verbatim>\<open>decreaseKey(h, 0, 1000000)\<close>
  leaves junction 0 at the root with distance 1000000, above junction 1 with 999999, and
  \<^verbatim>\<open>extractMin\<close> returns junction 0.
\<close>

theorem heap_calls_counterexample:
  "fst (extractMin (heap_after (build_heap 2) [DecreaseKey 0 1000000]))
     = Some \<lparr>v_node = 0, dist_node = 1000000\<rparr>
   \<and> (1::nat) < size_h (heap_after (build_heap 2) [DecreaseKey 0 1000000])
   \<and> arr (heap_after (build_heap 2) [DecreaseKey 0 1000000]) ! 1
       = Some \<lparr>v_node = 1, dist_node = 999999\<rparr>
   \<and> pos (heap_after (build_heap 2) [DecreaseKey 0 1000000]) ! 1 = 1
   \<and> \<not> dist_node \<lparr>v_node = 0, dist_node = 1000000\<rparr> \<le> dist_node \<lparr>v_node = 1, dist_node = 999999\<rparr>"
  by code_simp

text \<open>
  Claim C3, amended: take the heap built with one entry per junction and apply any sequence
  of \<^verbatim>\<open>decreaseKey\<close> and \<^verbatim>\<open>extractMin\<close> calls in which every \<^verbatim>\<open>decreaseKey\<close> names a
  junction id in range and a distance that is not above the one stored for it. Afterwards
  the position index is consistent: \<^verbatim>\<open>pos[v]\<close> is \<open>-1\<close> exactly for the junctions that
  were extracted, and otherwise it is the slot below \<^verbatim>\<open>size\<close> that holds the node of
  \<open>v\<close>. A further \<^verbatim>\<open>extractMin\<close> returns \<^verbatim>\<open>NULL\<close> on the empty heap and otherwise an entry
  that is present and whose distance is minimal among the entries present; it removes
  exactly that entry and keeps the distances of the others.
\<close>

theorem heap_calls_spec:
  assumes "calls_ok n (build_heap n) cs"
  shows "(\<forall>v < n.
            (pos (heap_after (build_heap n) cs) ! v = - 1
               \<longleftrightarrow> v \<in> set (extracted (build_heap n) cs)) \<and>
            (pos (heap_after (build_heap n) cs) ! v \<noteq> - 1 \<longrightarrow>
               0 \<le> pos (heap_after (build_heap n) cs) ! v \<and>
               nat (pos (heap_after (build_heap n) cs) ! v) < size_h (heap_after (build_heap n) cs) \<and>
               arr (heap_after (build_heap n) cs) ! nat (pos (heap_after (build_heap n) cs) ! v) \<noteq> None \<and>
               v_node (node_at (heap_after (build_heap n) cs)
                         (nat (pos (heap_after (build_heap n) cs) ! v))) = v))
         \<and> (size_h (heap_after (build_heap n) cs) = 0 \<longrightarrow>
              extractMin (heap_after (build_heap n) cs) = (None, heap_after (build_heap n) cs))
         \<and> (0 < size_h (heap_after (build_heap n) cs) \<longrightarrow>
              (\<exists>r h'. extractMin (heap_after (build_heap n) cs) = (Some r, h') \<and>
                 (\<exists>i < size_h (heap_after (build_heap n) cs).
                     arr (heap_after (build_heap n) cs) ! i = Some r) \<and>
                 (\<forall>i < size_h (heap_after (build_heap n) cs).
                     dist_node r \<le> dist_node (node_at (heap_after (build_heap n) cs) i)) \<and>
                 pos h' ! v_node r = - 1 \<and>
                 size_h h' = size_h (heap_after (build_heap n) cs) - 1 \<and>
                 (\<forall>v < n. v \<noteq> v_node r \<longrightarrow> hmap h' v = hmap (heap_after (build_heap n) cs) v)))"
proof -
  define h where "h = heap_after (build_heap n) cs"
  have inv: "hinv n h"
    and ex: "\<And>v. v < n \<Longrightarrow> pos h ! v = - 1 \<longleftrightarrow> v \<in> set (extracted (build_heap n) cs)"
    using heap_after_inv [OF build_heap_props(1) assms] build_heap_props(4) [of _ n]
    by (simp_all add: h_def)
  have w: "winv n h" and o: "heap_ord h" using inv by (simp_all add: hinv_def)
  have index: "0 \<le> pos h ! v \<and> nat (pos h ! v) < size_h h \<and> arr h ! nat (pos h ! v) \<noteq> None
      \<and> v_node (node_at h (nat (pos h ! v))) = v" if "v < n" "pos h ! v \<noteq> - 1" for v
    using winv_index [OF w that] winv_slot [OF w, of "nat (pos h ! v)"] by (simp add: vtx_def)
  have empty: "extractMin h = (None, h)" if "size_h h = 0"
    using that by (rule extractMin_empty)
  have nonempty: "\<exists>r h'. extractMin h = (Some r, h') \<and> (\<exists>i < size_h h. arr h ! i = Some r) \<and>
      (\<forall>i < size_h h. dist_node r \<le> dist_node (node_at h i)) \<and> pos h' ! v_node r = - 1 \<and>
      size_h h' = size_h h - 1 \<and> (\<forall>v < n. v \<noteq> v_node r \<longrightarrow> hmap h' v = hmap h v)"
    if z: "0 < size_h h"
  proof -
    note p = extractMin_props [OF inv z]
    have e: "extractMin h = (Some (node_at h 0), snd (extractMin h))"
      using p(1) by (metis prod.collapse)
    have a: "arr h ! 0 = Some (node_at h 0)"
      using winv_slot [OF w z] by (auto simp: node_at_def)
    have m: "\<forall>i < size_h h. dist_node (node_at h 0) \<le> dist_node (node_at h i)"
      using heap_ord_root [OF o] by (simp add: key_def)
    have g: "pos (snd (extractMin h)) ! v_node (node_at h 0) = - 1"
      using p(6) [OF p(4)] by (simp add: hmap_None_iff [symmetric] vtx_def)
    have k: "\<forall>v < n. v \<noteq> v_node (node_at h 0) \<longrightarrow> hmap (snd (extractMin h)) v = hmap h v"
      using p(6) by (simp add: vtx_def)
    show ?thesis
      using e a m g k p(3) z by blast
  qed
  show ?thesis
    unfolding h_def [symmetric] using ex index empty nonempty by blast
qed

theorem heap_calls_spec_witness:
  "calls_ok 3 (build_heap 3) [DecreaseKey 1 5, DecreaseKey 2 7, DecreaseKey 2 3, ExtractMin]
   \<and> (2::nat) < 3 \<and> (1::nat) < 3
   \<and> extracted (build_heap 3) [DecreaseKey 1 5, DecreaseKey 2 7, DecreaseKey 2 3, ExtractMin] = [2]
   \<and> pos (heap_after (build_heap 3) [DecreaseKey 1 5, DecreaseKey 2 7, DecreaseKey 2 3, ExtractMin]) ! 2 = - 1
   \<and> pos (heap_after (build_heap 3) [DecreaseKey 1 5, DecreaseKey 2 7, DecreaseKey 2 3, ExtractMin]) ! 1 = 0
   \<and> 0 < size_h (heap_after (build_heap 3) [DecreaseKey 1 5, DecreaseKey 2 7, DecreaseKey 2 3, ExtractMin])
   \<and> fst (extractMin (heap_after (build_heap 3) [DecreaseKey 1 5, DecreaseKey 2 7, DecreaseKey 2 3, ExtractMin]))
       = Some \<lparr>v_node = 1, dist_node = 5\<rparr>"
proof -
  let ?cs = "[DecreaseKey 1 5, DecreaseKey 2 7, DecreaseKey 2 3, ExtractMin]"
  have ok: "calls_ok 3 (build_heap 3) ?cs"
    by code_simp
  have ex: "extracted (build_heap 3) ?cs = [2]"
    by code_simp
  have p1: "pos (heap_after (build_heap 3) ?cs) ! 1 = 0"
    by code_simp
  have sz: "0 < size_h (heap_after (build_heap 3) ?cs)"
    by code_simp
  have r: "fst (extractMin (heap_after (build_heap 3) ?cs)) = Some \<lparr>v_node = 1, dist_node = 5\<rparr>"
    by code_simp
  have t: "pos (heap_after (build_heap 3) ?cs) ! 2 = - 1 \<longleftrightarrow> 2 \<in> set (extracted (build_heap 3) ?cs)"
    by (rule heap_calls_spec [OF ok, THEN conjunct1, rule_format, THEN conjunct1]) simp
  have p2: "pos (heap_after (build_heap 3) ?cs) ! 2 = - 1"
    unfolding t ex by simp
  show ?thesis
    by (intro conjI ok ex p1 p2 sz r) simp_all
qed

section \<open>Properties of the search\<close>

lemma is_walk_append:
  "is_walk g u (es @ fs) v \<longleftrightarrow> (\<exists>x. is_walk g u es x \<and> is_walk g x fs v)"
  by (induction es arbitrary: u) auto

lemma path_time_append:
  "path_time g t (es @ fs) = path_time g (path_time g t es) fs"
  by (induction es arbitrary: t) auto

lemma dinv0D:
  assumes "dinv0 g s st"
  shows "length (dist_s st) = nv g"
    and "hinv (nv g) (heap_s st)"
    and "winv (nv g) (heap_s st)"
    and "v < nv g \<Longrightarrow> hmap (heap_s st) v = None \<or> hmap (heap_s st) v = Some (dist_s st ! v)"
    and "v < nv g \<Longrightarrow> dist_s st ! v \<le> INF_c"
    and "v < nv g \<Longrightarrow> dist_s st ! v \<noteq> INF_c \<Longrightarrow> \<exists>es. is_walk g s es v"
  using assms unfolding dinv0_def hinv_def by blast+

lemma set_dist_idem: "set_dist (set_dist h i d) i d = set_dist h i d"
  by (cases "i < length (arr h)") (simp_all add: set_dist_def node_at_def not_less list_update_beyond)

lemma decreaseKey_after_set_dist:
  "pos h ! v \<noteq> - 1 \<Longrightarrow> decreaseKey (set_dist h (nat (pos h ! v)) d) v d = decreaseKey h v d"
  by (simp add: decreaseKey_set_dist set_dist_idem)

lemma relax_unchanged:
  "pos (heap_s st) ! to e = - 1 \<or> \<not> new_dist g st u e < dist_s st ! to e \<Longrightarrow> relax g u st e = st"
  by (auto simp: relax_def Let_def new_dist_def)

lemma relax_changed:
  assumes "winv n (heap_s st)" "to e < n" "pos (heap_s st) ! to e \<noteq> - 1"
    "new_dist g st u e < dist_s st ! to e"
  shows "relax g u st e =
           st\<lparr>dist_s := (dist_s st)[to e := new_dist g st u e],
              parent_s := (parent_s st)[to e := int u],
              heap_s := decreaseKey (heap_s st) (to e) (new_dist g st u e)\<rparr>"
proof -
  have "arr (heap_s st) ! nat (pos (heap_s st) ! to e) \<noteq> None"
    using winv_index [OF assms(1,2,3)] winv_slot [OF assms(1)] by blast
  then show ?thesis
    using assms(3,4) by (simp add: relax_def Let_def new_dist_def [symmetric] decreaseKey_after_set_dist)
qed

lemma relax_dist:
  assumes "winv n (heap_s st)" "to e < n"
  shows "dist_s (relax g u st e) =
           (if pos (heap_s st) ! to e \<noteq> - 1 \<and> new_dist g st u e < dist_s st ! to e
            then (dist_s st)[to e := new_dist g st u e] else dist_s st)"
  using relax_changed [OF assms] relax_unchanged [of st e g u] by auto

lemma relax_pos_absent:
  assumes "winv n (heap_s st)" "to e < n" "x < n"
  shows "pos (heap_s (relax g u st e)) ! x = - 1 \<longleftrightarrow> pos (heap_s st) ! x = - 1"
proof (cases "pos (heap_s st) ! to e \<noteq> - 1 \<and> new_dist g st u e < dist_s st ! to e")
  case True
  then show ?thesis
    using relax_changed [OF assms(1,2)] decreaseKey_pos_absent [OF assms(1,2,3)] by simp
next
  case False
  then show ?thesis using relax_unchanged [of st e g u] by auto
qed

lemma relax_dinv0:
  assumes inv: "dinv0 g s st" and e: "e \<in> set (adj g ! u)" "to e < nv g"
    and u: "u < nv g" "dist_s st ! u \<noteq> INF_c"
  shows "dinv0 g s (relax g u st e)"
proof (cases "pos (heap_s st) ! to e \<noteq> - 1 \<and> new_dist g st u e < dist_s st ! to e")
  case False
  then show ?thesis using relax_unchanged [of st e g u] inv by auto
next
  case True
  define n where "n = nv g"
  define v where "v = to e"
  define d where "d = new_dist g st u e"
  note i = dinv0D [OF inv, folded n_def]
  have v: "v < n" "pos (heap_s st) ! v \<noteq> - 1" "d < dist_s st ! v"
    using True e(2) by (simp_all add: v_def n_def d_def)
  have r: "relax g u st e =
      st\<lparr>dist_s := (dist_s st)[v := d], parent_s := (parent_s st)[v := int u],
         heap_s := decreaseKey (heap_s st) v d\<rparr>"
    using relax_changed [OF i(3)] v unfolding v_def d_def by simp
  have kv: "hmap (heap_s st) v = Some (dist_s st ! v)"
    using i(4) [OF v(1)] v(2) by (simp add: hmap_None_iff)
  then have "key (heap_s st) (nat (pos (heap_s st) ! v)) = dist_s st ! v"
    using v(2) by (simp add: hmap_def)
  then have h': "hinv n (decreaseKey (heap_s st) v d)"
    using decreaseKey_hinv [OF i(2) v(1), of d] v(3) by simp
  have m': "hmap (decreaseKey (heap_s st) v d) x = (if x = v then Some d else hmap (heap_s st) x)"
    if "x < n" for x
    using decreaseKey_hmap [OF i(3) v(1,2) that] .
  have lv: "v < length (dist_s st)"
    using i(1) v(1) by simp
  have dle: "d < INF_c"
    using v(3) i(5) [OF v(1)] by simp
  obtain es where es: "is_walk g s es u"
    using i(6) [of u] u by (auto simp: n_def)
  have walk: "is_walk g s (es @ [e]) v"
    using es e(1) by (auto simp: is_walk_append v_def)
  have "dinv0 g s (st\<lparr>dist_s := (dist_s st)[v := d], parent_s := (parent_s st)[v := int u],
         heap_s := decreaseKey (heap_s st) v d\<rparr>)"
    unfolding dinv0_def n_def [symmetric]
  proof (intro conjI allI impI)
    fix x assume x: "x < n"
    show "hmap (heap_s (st\<lparr>dist_s := (dist_s st)[v := d], parent_s := (parent_s st)[v := int u],
         heap_s := decreaseKey (heap_s st) v d\<rparr>)) x = None \<or>
        hmap (heap_s (st\<lparr>dist_s := (dist_s st)[v := d], parent_s := (parent_s st)[v := int u],
         heap_s := decreaseKey (heap_s st) v d\<rparr>)) x =
        Some (dist_s (st\<lparr>dist_s := (dist_s st)[v := d], parent_s := (parent_s st)[v := int u],
         heap_s := decreaseKey (heap_s st) v d\<rparr>) ! x)"
      using m' [OF x] i(4) [OF x] lv by (auto simp: nth_list_update)
    show "dist_s (st\<lparr>dist_s := (dist_s st)[v := d], parent_s := (parent_s st)[v := int u],
         heap_s := decreaseKey (heap_s st) v d\<rparr>) ! x \<le> INF_c"
      using i(5) [OF x] dle lv by (auto simp: nth_list_update)
    assume "dist_s (st\<lparr>dist_s := (dist_s st)[v := d], parent_s := (parent_s st)[v := int u],
         heap_s := decreaseKey (heap_s st) v d\<rparr>) ! x \<noteq> INF_c"
    then show "\<exists>es. is_walk g s es x"
      using i(6) [OF x] walk lv by (cases "x = v") (auto simp: nth_list_update)
  qed (use i(1) h' in simp_all)
  then show ?thesis
    by (simp add: r)
qed

lemma wf_graph_to: "wf_graph g \<Longrightarrow> u < nv g \<Longrightarrow> e \<in> set (adj g ! u) \<Longrightarrow> to e < nv g"
  unfolding wf_graph_def by blast

lemma relax_dist_closed:
  assumes "winv n (heap_s st)" "to e < n" "pos (heap_s st) ! x = - 1"
  shows "dist_s (relax g u st e) ! x = dist_s st ! x"
proof -
  have "pos (heap_s st) ! to e \<noteq> - 1 \<Longrightarrow> x \<noteq> to e"
    using assms(3) by auto
  then show ?thesis
    by (auto simp: relax_dist [OF assms(1,2)])
qed

lemma foldl_relax_dinv0:
  assumes "wf_graph g" "u < nv g"
  shows "dinv0 g s st \<Longrightarrow> set es \<subseteq> set (adj g ! u) \<Longrightarrow> pos (heap_s st) ! u = - 1 \<Longrightarrow>
     dist_s st ! u \<noteq> INF_c \<Longrightarrow>
     dinv0 g s (foldl (relax g u) st es) \<and>
     (\<forall>x < nv g. pos (heap_s (foldl (relax g u) st es)) ! x = - 1 \<longleftrightarrow> pos (heap_s st) ! x = - 1)"
proof (induction es arbitrary: st)
  case Nil
  then show ?case by simp
next
  case (Cons e es)
  have e: "e \<in> set (adj g ! u)" "to e < nv g"
    using Cons.prems(2) wf_graph_to [OF assms] by auto
  note w = dinv0D(3) [OF Cons.prems(1)]
  have 1: "dinv0 g s (relax g u st e)"
    using relax_dinv0 [OF Cons.prems(1) e assms(2) Cons.prems(4)] .
  have 2: "pos (heap_s (relax g u st e)) ! x = - 1 \<longleftrightarrow> pos (heap_s st) ! x = - 1"
    if "x < nv g" for x
    using relax_pos_absent [OF w e(2) that] .
  have 3: "dist_s (relax g u st e) ! u = dist_s st ! u"
    using relax_dist_closed [OF w e(2) Cons.prems(3)] .
  have "dinv0 g s (foldl (relax g u) (relax g u st e) es) \<and>
     (\<forall>x < nv g. pos (heap_s (foldl (relax g u) (relax g u st e) es)) ! x = - 1
        \<longleftrightarrow> pos (heap_s (relax g u st e)) ! x = - 1)"
    using Cons.IH [OF 1] Cons.prems(2,3,4) 2 [OF assms(2)] 3 by simp
  then show ?case
    using 2 by simp
qed

text \<open>One round of the main loop, for a heap that satisfies its invariant.\<close>

lemma dijkstra_loop_empty: "size_h (heap_s st) = 0 \<Longrightarrow> dijkstra_loop g dest st = st"
  by (subst dijkstra_loop.simps) (simp add: isEmpty_def)

lemma dijkstra_loop_step:
  assumes "hinv n (heap_s st)" "0 < size_h (heap_s st)"
  shows "dijkstra_loop g dest st =
           (if key (heap_s st) 0 = INF_c \<or> vtx (heap_s st) 0 = dest
            then st\<lparr>heap_s := snd (extractMin (heap_s st))\<rparr>
            else dijkstra_loop g dest
                   (foldl (relax g (vtx (heap_s st) 0)) (st\<lparr>heap_s := snd (extractMin (heap_s st))\<rparr>)
                      (adj g ! vtx (heap_s st) 0)))"
proof -
  obtain h' where e: "extractMin (heap_s st) = (Some (node_at (heap_s st) 0), h')"
    using extractMin_props(1) [OF assms] by (metis prod.collapse)
  show ?thesis
    using assms(2)
    by (subst dijkstra_loop.simps) (simp add: e isEmpty_def Let_def key_def vtx_def)
qed

lemma extract_dinv0:
  assumes "dinv0 g s st" "0 < size_h (heap_s st)"
  shows "dinv0 g s (st\<lparr>heap_s := snd (extractMin (heap_s st))\<rparr>)"
    and "vtx (heap_s st) 0 < nv g"
    and "dist_s st ! vtx (heap_s st) 0 = key (heap_s st) 0"
    and "pos (snd (extractMin (heap_s st))) ! vtx (heap_s st) 0 = - 1"
    and "x < nv g \<Longrightarrow> pos (snd (extractMin (heap_s st))) ! x = - 1 \<longleftrightarrow>
           x = vtx (heap_s st) 0 \<or> pos (heap_s st) ! x = - 1"
    and "x < nv g \<Longrightarrow> pos (heap_s st) ! x \<noteq> - 1 \<Longrightarrow> key (heap_s st) 0 \<le> dist_s st ! x"
proof -
  note i = dinv0D [OF assms(1)]
  note p = extractMin_props [OF i(2) assms(2)]
  show "vtx (heap_s st) 0 < nv g" by (rule p(4))
  show "dist_s st ! vtx (heap_s st) 0 = key (heap_s st) 0"
    using i(4) [OF p(4)] p(5) by simp
  have a: "pos (snd (extractMin (heap_s st))) ! x = - 1 \<longleftrightarrow>
           x = vtx (heap_s st) 0 \<or> pos (heap_s st) ! x = - 1" if "x < nv g" for x
    using p(6) [OF that] by (auto simp: hmap_None_iff [symmetric])
  show "x < nv g \<Longrightarrow> pos (snd (extractMin (heap_s st))) ! x = - 1 \<longleftrightarrow>
           x = vtx (heap_s st) 0 \<or> pos (heap_s st) ! x = - 1"
    by (rule a)
  show "pos (snd (extractMin (heap_s st))) ! vtx (heap_s st) 0 = - 1"
    using a [OF p(4)] by simp
  show "key (heap_s st) 0 \<le> dist_s st ! x" if "x < nv g" "pos (heap_s st) ! x \<noteq> - 1"
  proof -
    have "hmap (heap_s st) x = Some (dist_s st ! x)"
      using i(4) [OF that(1)] that(2) by (simp add: hmap_None_iff)
    then show ?thesis by (rule p(7) [OF that(1)])
  qed
  show "dinv0 g s (st\<lparr>heap_s := snd (extractMin (heap_s st))\<rparr>)"
    unfolding dinv0_def
    using i(1) p(2) i(4) i(5) i(6) p(6) by auto
qed

lemma dijkstra_loop_dinv0:
  assumes "wf_graph g"
  shows "dinv0 g s st \<Longrightarrow> dinv0 g s (dijkstra_loop g dest st)"
proof (induction "size_h (heap_s st)" arbitrary: st rule: less_induct)
  case less
  show ?case
  proof (cases "size_h (heap_s st) = 0")
    case True
    then show ?thesis using less.prems by (simp add: dijkstra_loop_empty)
  next
    case False
    then have z: "0 < size_h (heap_s st)" by simp
    note i = dinv0D [OF less.prems]
    note x = extract_dinv0 [OF less.prems z]
    define u where "u = vtx (heap_s st) 0"
    define st1 where "st1 = st\<lparr>heap_s := snd (extractMin (heap_s st))\<rparr>"
    show ?thesis
    proof (cases "key (heap_s st) 0 = INF_c \<or> u = dest")
      case True
      then show ?thesis
        using x(1) by (simp add: dijkstra_loop_step [OF i(2) z] u_def)
    next
      case False
      have "dinv0 g s (foldl (relax g u) st1 (adj g ! u))"
        using foldl_relax_dinv0 [OF assms, of u s st1 "adj g ! u"] x(1,2,3,4) False
        by (simp add: u_def st1_def)
      moreover have "size_h (heap_s (foldl (relax g u) st1 (adj g ! u))) < size_h (heap_s st)"
        using z by (simp add: st1_def extractMin_size)
      ultimately have "dinv0 g s (dijkstra_loop g dest (foldl (relax g u) st1 (adj g ! u)))"
        using less.hyps by blast
      then show ?thesis
        using False by (simp add: dijkstra_loop_step [OF i(2) z] u_def st1_def)
    qed
  qed
qed

lemma dijkstra_init_props:
  assumes "s < nv g"
  shows "dist_s (dijkstra_init g s) = (replicate (nv g) INF_c)[s := 0]"
    and "hinv (nv g) (heap_s (dijkstra_init g s))"
    and "v < nv g \<Longrightarrow>
           hmap (heap_s (dijkstra_init g s)) v = Some (dist_s (dijkstra_init g s) ! v)"
    and "size_h (heap_s (dijkstra_init g s)) = nv g"
proof -
  define n where "n = nv g"
  define h where "h = build_heap n"
  note b = build_heap_props [where n = n, folded h_def]
  have w: "winv n h" using b(1) by (simp add: hinv_def)
  have ps: "pos h ! s \<noteq> - 1"
    using b(4) [of s] assms by (simp add: n_def)
  have hp: "heap_s (dijkstra_init g s) = decreaseKey h s 0"
    using decreaseKey_after_set_dist [OF ps, of 0]
    by (simp add: dijkstra_init_def Let_def h_def build_heap_def n_def)
  show d: "dist_s (dijkstra_init g s) = (replicate (nv g) INF_c)[s := 0]"
    by (simp add: dijkstra_init_def Let_def)
  have "key h (nat (pos h ! s)) = INF_c"
    using b(3) [of s] assms ps by (simp add: hmap_def n_def)
  then show "hinv (nv g) (heap_s (dijkstra_init g s))"
    unfolding hp n_def [symmetric]
    using decreaseKey_hinv [OF b(1), of s 0] assms by (simp add: n_def INF_c_def)
  show "hmap (heap_s (dijkstra_init g s)) v = Some (dist_s (dijkstra_init g s) ! v)"
    if "v < nv g"
    using decreaseKey_hmap [OF w _ ps, of v 0] b(3) [of v] assms that
    by (simp add: hp d n_def nth_list_update)
  show "size_h (heap_s (dijkstra_init g s)) = nv g"
    using b(2) by (simp add: hp n_def)
qed

lemma dijkstra_init_dinv0:
  assumes "s < nv g"
  shows "dinv0 g s (dijkstra_init g s)"
proof -
  note p = dijkstra_init_props [OF assms]
  have "\<exists>es. is_walk g s es v"
    if "v < nv g" "dist_s (dijkstra_init g s) ! v \<noteq> INF_c" for v
  proof -
    have "v = s"
    proof (rule ccontr)
      assume "v \<noteq> s"
      then have "dist_s (dijkstra_init g s) ! v = INF_c"
        using that(1) by (simp add: p(1))
      then show False using that(2) by simp
    qed
    then have "is_walk g s [] v"
      by simp
    then show ?thesis by blast
  qed
  moreover have "dist_s (dijkstra_init g s) ! v \<le> INF_c" if "v < nv g" for v
    using that by (cases "v = s") (simp_all add: p(1) INF_c_def)
  ultimately show ?thesis
    unfolding dinv0_def using p(2,3) by (simp add: p(1))
qed

lemma dijkstra_search_dinv0:
  "wf_graph g \<Longrightarrow> s < nv g \<Longrightarrow> dinv0 g s (dijkstra_search g s t)"
  unfolding dijkstra_search_def by (rule dijkstra_loop_dinv0 [OF _ dijkstra_init_dinv0])

lemma dijkstra_search_unreached:
  assumes "wf_graph g" "s < nv g" "t < nv g"
    and "\<not> (\<exists>es. is_walk g s es t)"
  shows "dist_s (dijkstra_search g s t) ! t = INF_c"
proof (rule ccontr)
  assume n: "dist_s (dijkstra_search g s t) ! t \<noteq> INF_c"
  note i = dinv0D [OF dijkstra_search_dinv0 [OF assms(1,2), of t]]
  show False
    using i(6) [OF assms(3) n] assms(4) by blast
qed

lemma nat_less_nv: "0 \<le> x \<Longrightarrow> x < vertices g \<Longrightarrow> nat x < nv g"
  by (simp add: nv_def)

lemma dijkstra_outcome:
  assumes "0 \<le> src" "src < vertices g" "0 \<le> dest" "dest < vertices g"
  shows "dijkstra fp g src dest =
     (if dist_s (dijkstra_search g (nat src) (nat dest)) ! nat dest = INF_c
      then NoPathFound (exportLeafletMap fp g [0] 0)
      else ShortestTime (dist_s (dijkstra_search g (nat src) (nat dest)) ! nat dest)
             (case collect_path (parent_s (dijkstra_search g (nat src) (nat dest))) dest [] of
                None \<Rightarrow> None
              | Some path \<Rightarrow>
                  Some (rev path, exportLeafletMap fp g (rev path) (int (length path)))))"
  using assms by (simp add: dijkstra_def Let_def dijkstra_search_def)

lemma getWaitingTime_nonneg: "0 \<le> a \<Longrightarrow> 0 \<le> getWaitingTime l a"
proof -
  assume a: "0 \<le> a"
  define c where "c = c_int (red l + green l + yellow l)"
  have "a mod c \<le> c" if "0 < c"
  proof -
    have "a mod c < c" using that by simp
    then show ?thesis by simp
  qed
  then show ?thesis
    using getWaitingTime_cases [OF a, of l, folded c_def] by (cases "0 < c") auto
qed

lemma path_time_ge:
  assumes "wf_graph g" "nonneg_graph g"
  shows "u < nv g \<Longrightarrow> is_walk g u es v \<Longrightarrow> 0 \<le> t \<Longrightarrow> t \<le> path_time g t es"
proof (induction es arbitrary: u t)
  case Nil
  then show ?case by simp
next
  case (Cons e es)
  have e: "e \<in> set (adj g ! u)" "is_walk g (to e) es v"
    using Cons.prems(2) by simp_all
  have w: "0 \<le> weight e"
    using assms(2) Cons.prems(1) e(1) unfolding nonneg_graph_def by blast
  then have "0 \<le> t + weight e"
    using Cons.prems(3) by simp
  then have t1: "t \<le> t + weight e + getWaitingTime (lights g ! to e) (t + weight e)"
    using getWaitingTime_nonneg [of "t + weight e" "lights g ! to e"] w by simp
  then have "0 \<le> t + weight e + getWaitingTime (lights g ! to e) (t + weight e)"
    using Cons.prems(3) by simp
  then have "t + weight e + getWaitingTime (lights g ! to e) (t + weight e)
      \<le> path_time g (t + weight e + getWaitingTime (lights g ! to e) (t + weight e)) es"
    by (rule Cons.IH [OF wf_graph_to [OF assms(1) Cons.prems(1) e(1)] e(2)])
  then show ?case using t1 by simp
qed

lemma is_walk_in_range:
  assumes "wf_graph g"
  shows "u < nv g \<Longrightarrow> is_walk g u es v \<Longrightarrow> v < nv g"
  by (induction es arbitrary: u) (auto dest: wf_graph_to [OF assms])

text \<open>
  A distance that is at the sentinel stays there as long as every candidate computed for its
  junction is at least the sentinel. This needs no invariant of the heap.
\<close>

lemma relax_keep:
  assumes "t < length (dist_s st)" "dist_s st ! t = INF_c"
    and "pos (heap_s st) ! to p \<noteq> - 1 \<Longrightarrow> to p = t \<Longrightarrow> INF_c \<le> new_dist g st u p"
  shows "dist_s (relax g u st p) ! t = INF_c"
    and "length (dist_s (relax g u st p)) = length (dist_s st)"
proof -
  show "length (dist_s (relax g u st p)) = length (dist_s st)"
    by (simp add: relax_def Let_def)
  show "dist_s (relax g u st p) ! t = INF_c"
  proof (cases "to p = t")
    case True
    then have "pos (heap_s st) ! to p \<noteq> - 1 \<Longrightarrow> \<not> new_dist g st u p < dist_s st ! to p"
      using assms(2,3) by auto
    then have "relax g u st p = st"
      by (auto simp: relax_def Let_def new_dist_def)
    then show ?thesis using assms(2) by simp
  next
    case False
    then show ?thesis
      using assms(2) by (simp add: relax_def Let_def)
  qed
qed

lemma foldl_relax_keep:
  "t < length (dist_s st) \<Longrightarrow> dist_s st ! t = INF_c \<Longrightarrow>
   (\<forall>c. (t, c) \<in> set (relax_candidates g u st ps) \<longrightarrow> INF_c \<le> c) \<Longrightarrow>
   dist_s (foldl (relax g u) st ps) ! t = INF_c \<and>
   length (dist_s (foldl (relax g u) st ps)) = length (dist_s st)"
proof (induction ps arbitrary: st)
  case Nil
  then show ?case by simp
next
  case (Cons p ps)
  have c: "pos (heap_s st) ! to p \<noteq> - 1 \<Longrightarrow> to p = t \<Longrightarrow> INF_c \<le> new_dist g st u p"
    using Cons.prems(3) by simp
  note k = relax_keep [OF Cons.prems(1,2) c]
  have "\<forall>c. (t, c) \<in> set (relax_candidates g u (relax g u st p) ps) \<longrightarrow> INF_c \<le> c"
    using Cons.prems(3) by simp
  then show ?case
    using Cons.IH [of "relax g u st p"] k Cons.prems(1) by simp
qed

lemma dijkstra_loop_unfold:
  assumes "0 < size_h (heap_s st)"
  shows "dijkstra_loop g dest st =
     (case fst (extractMin (heap_s st)) of
        None \<Rightarrow> st\<lparr>heap_s := snd (extractMin (heap_s st))\<rparr>
      | Some hn \<Rightarrow>
          if dist_node hn = INF_c \<or> v_node hn = dest then st\<lparr>heap_s := snd (extractMin (heap_s st))\<rparr>
          else dijkstra_loop g dest
                 (foldl (relax g (v_node hn)) (st\<lparr>heap_s := snd (extractMin (heap_s st))\<rparr>)
                    (adj g ! v_node hn)))"
  using assms
  by (subst dijkstra_loop.simps) (simp add: isEmpty_def Let_def split: prod.split option.split)

lemma dijkstra_candidates_unfold:
  assumes "0 < size_h (heap_s st)"
  shows "dijkstra_candidates g dest st =
     (case fst (extractMin (heap_s st)) of
        None \<Rightarrow> []
      | Some hn \<Rightarrow>
          if dist_node hn = INF_c \<or> v_node hn = dest then []
          else relax_candidates g (v_node hn) (st\<lparr>heap_s := snd (extractMin (heap_s st))\<rparr>)
                 (adj g ! v_node hn)
               @ dijkstra_candidates g dest
                 (foldl (relax g (v_node hn)) (st\<lparr>heap_s := snd (extractMin (heap_s st))\<rparr>)
                    (adj g ! v_node hn)))"
  using assms
  by (subst dijkstra_candidates.simps) (simp add: isEmpty_def Let_def split: prod.split option.split)

lemma dijkstra_loop_keep:
  "t < length (dist_s st) \<Longrightarrow> dist_s st ! t = INF_c \<Longrightarrow>
   (\<forall>c. (t, c) \<in> set (dijkstra_candidates g dest st) \<longrightarrow> INF_c \<le> c) \<Longrightarrow>
   dist_s (dijkstra_loop g dest st) ! t = INF_c"
proof (induction "size_h (heap_s st)" arbitrary: st rule: less_induct)
  case less
  show ?case
  proof (cases "size_h (heap_s st) = 0")
    case True
    then show ?thesis using less.prems(2) by (simp add: dijkstra_loop_empty)
  next
    case False
    then have z: "0 < size_h (heap_s st)" by simp
    define st1 where "st1 = st\<lparr>heap_s := snd (extractMin (heap_s st))\<rparr>"
    have d1: "dist_s st1 = dist_s st" by (simp add: st1_def)
    show ?thesis
    proof (cases "fst (extractMin (heap_s st))")
      case None
      then show ?thesis
        using less.prems(2) by (simp add: dijkstra_loop_unfold [OF z])
    next
      case (Some hn)
      show ?thesis
      proof (cases "dist_node hn = INF_c \<or> v_node hn = dest")
        case True
        then show ?thesis
          using less.prems(2) Some by (simp add: dijkstra_loop_unfold [OF z])
      next
        case False
        define st2 where "st2 = foldl (relax g (v_node hn)) st1 (adj g ! v_node hn)"
        have l: "dijkstra_loop g dest st = dijkstra_loop g dest st2"
          using False Some by (simp add: dijkstra_loop_unfold [OF z] st2_def st1_def)
        have c: "dijkstra_candidates g dest st =
            relax_candidates g (v_node hn) st1 (adj g ! v_node hn) @ dijkstra_candidates g dest st2"
          using False Some by (simp add: dijkstra_candidates_unfold [OF z] st2_def st1_def)
        have c1: "\<forall>c. (t, c) \<in> set (relax_candidates g (v_node hn) st1 (adj g ! v_node hn)) \<longrightarrow> INF_c \<le> c"
          and c2: "\<forall>c. (t, c) \<in> set (dijkstra_candidates g dest st2) \<longrightarrow> INF_c \<le> c"
          using less.prems(3) by (simp_all add: c)
        have k: "dist_s st2 ! t = INF_c \<and> length (dist_s st2) = length (dist_s st1)"
          unfolding st2_def using less.prems(1,2) c1 by (intro foldl_relax_keep) (simp_all add: d1)
        have "size_h (heap_s st2) < size_h (heap_s st)"
          using z by (simp add: st2_def st1_def extractMin_size)
        then have "dist_s (dijkstra_loop g dest st2) ! t = INF_c"
          using less.hyps [of st2] k c2 less.prems(1) by (simp add: d1)
        then show ?thesis by (simp add: l)
      qed
    qed
  qed
qed

text \<open>
  Claim C6, as stated: with no connecting edge sequence \<^verbatim>\<open>dijkstra\<close> reports "no path" and
  the map export is still performed. The export fails when its file cannot be opened:
  \<^verbatim>\<open>exportLeafletMap\<close> then reports the error of \<^verbatim>\<open>fopen\<close> and returns without writing. On
  the graph of two junctions without roads, \<^verbatim>\<open>dijkstra\<close> from 0 to 1 then reports "no
  path" and no map is written.
\<close>

theorem dijkstra_no_path_counterexample:
  "wf_graph graph_islands
   \<and> (0::int) \<le> 0 \<and> 0 < vertices graph_islands
   \<and> (0::int) \<le> 1 \<and> 1 < vertices graph_islands
   \<and> adj graph_islands ! 0 = [] \<and> adj graph_islands ! 1 = []
   \<and> dijkstra False graph_islands 0 1 = NoPathFound None"
  by code_simp

text \<open>
  Claim C6, amended: for an in-range source and destination with no connecting edge
  sequence, \<^verbatim>\<open>dijkstra\<close> reports "no path" and not an error, and the distance of the
  destination is still the sentinel; if the map file can be opened, the map is exported
  with every junction (its id, the first 63 characters of its name with every double quote
  and backslash replaced by an apostrophe, its coordinates), every road (written once, from
  the endpoint with the smaller id, with its weight) and an empty highlighted path; if it
  cannot be opened, no map is written. This holds for every graph, whatever its weights.
\<close>

theorem dijkstra_no_path:
  assumes "wf_graph g"
    and "0 \<le> src" "src < vertices g" "0 \<le> dest" "dest < vertices g"
    and "\<not> (\<exists>es. is_walk g (nat src) es (nat dest))"
  shows "dist_s (dijkstra_search g (nat src) (nat dest)) ! nat dest = INF_c
         \<and> dijkstra fp g src dest =
             NoPathFound
               (if fp then
                  Some \<lparr>nodes = map (\<lambda>i. (i, map (\<lambda>c. if c = CHR 0x22 \<or> c = CHR 0x5C then CHR 0x27
                                                             else c) (take 63 (names g ! i)),
                                               lat g ! i, lon g ! i))
                                   [0..<nv g],
                        edges = concat (map (\<lambda>u. map (\<lambda>p. (u, to p, weight p))
                                                     (filter (\<lambda>p. u < to p) (adj g ! u)))
                                          [0..<nv g]),
                        sp = []\<rparr>
                else None)"
proof -
  have "dist_s (dijkstra_search g (nat src) (nat dest)) ! nat dest = INF_c"
    using dijkstra_search_unreached [OF assms(1), of "nat src" "nat dest"] assms(2-6)
    by (simp add: nat_less_nv)
  then show ?thesis
    using dijkstra_outcome [OF assms(2-5), of fp]
    by (simp add: exportLeafletMap_def js_escape_name_def)
qed

theorem dijkstra_no_path_witness:
  "wf_graph graph_annex
   \<and> (0::int) \<le> 0 \<and> 0 < vertices graph_annex
   \<and> (0::int) \<le> 2 \<and> 2 < vertices graph_annex
   \<and> \<not> (\<exists>es. is_walk graph_annex (nat 0) es (nat 2))
   \<and> names graph_annex ! 0 = [CHR ''A'', CHR 0x22]
   \<and> dijkstra True graph_annex 0 2 =
       NoPathFound (Some \<lparr>nodes = [(0, [CHR ''A'', CHR 0x27], 0, 0), (1, ''B'', 0, 0), (2, ''C'', 0, 0)],
                          edges = [(0, 1, 4)], sp = []\<rparr>)
   \<and> dijkstra False graph_annex 0 2 = NoPathFound None"
proof -
  have wf: "wf_graph graph_annex"
    by code_simp
  have v: "vertices graph_annex = 3"
    by (simp add: graph_annex_def example_graph_def)
  have a: "adj graph_annex ! 0 = [\<lparr>to = 1, weight = 4\<rparr>]" "adj graph_annex ! 1 = [\<lparr>to = 0, weight = 4\<rparr>]"
    by (simp_all add: graph_annex_def example_graph_def)
  have n0: "names graph_annex ! 0 = [CHR ''A'', CHR 0x22]"
    by (simp add: graph_annex_def example_graph_def)
  have stay: "u < 2 \<Longrightarrow> \<not> is_walk graph_annex u es 2" for u es
  proof (induction es arbitrary: u)
    case Nil
    then show ?case by simp
  next
    case (Cons e es)
    have u: "u = 0 \<or> u = 1" using Cons.prems by auto
    show ?case
    proof
      assume w: "is_walk graph_annex u (e # es) 2"
      then have "to e < 2" using u a by auto
      then show False using Cons.IH [of "to e"] w by simp
    qed
  qed
  have nw: "\<not> (\<exists>es. is_walk graph_annex (nat 0) es (nat 2))"
    using stay [of 0] by simp
  have n: "map (\<lambda>i. (i, map (\<lambda>c. if c = CHR 0x22 \<or> c = CHR 0x5C then CHR 0x27 else c)
                           (take 63 (names graph_annex ! i)),
                      lat graph_annex ! i, lon graph_annex ! i))
             [0..<nv graph_annex] = [(0, [CHR ''A'', CHR 0x27], 0, 0), (1, ''B'', 0, 0), (2, ''C'', 0, 0)]"
    by code_simp
  have e: "concat (map (\<lambda>u. map (\<lambda>p. (u, to p, weight p)) (filter (\<lambda>p. u < to p) (adj graph_annex ! u)))
             [0..<nv graph_annex]) = [(0, 1, 4)]"
    by code_simp
  note t = dijkstra_no_path [OF wf _ _ _ _ nw, unfolded n e]
  have t1: "dijkstra True graph_annex 0 2 =
       NoPathFound (Some \<lparr>nodes = [(0, [CHR ''A'', CHR 0x27], 0, 0), (1, ''B'', 0, 0), (2, ''C'', 0, 0)],
                          edges = [(0, 1, 4)], sp = []\<rparr>)"
    using t [of True] by (simp add: v)
  have t2: "dijkstra False graph_annex 0 2 = NoPathFound None"
    using t [of False] by (simp add: v)
  show ?thesis
    using wf nw n0 t1 t2 by (simp add: v)
qed

text \<open>
  Claim C8, as stated: for every in-range pair, a destination whose relaxation candidates
  are all at least 999999 is reported as "no path". It fails when the destination is the
  source: its distance is set to 0 before the main loop, the loop ends when it extracts the
  destination, no candidate is computed at all, and the shortest time 0 is reported.
\<close>

theorem dijkstra_sentinel_counterexample:
  "wf_graph graph_one
   \<and> (0::int) \<le> 0 \<and> 0 < vertices graph_one
   \<and> dijkstra_candidates graph_one (nat 0) (dijkstra_init graph_one (nat 0)) = []
   \<and> dijkstra True graph_one 0 0
       = ShortestTime 0 (Some ([0], Some \<lparr>nodes = [(0, ''A'', 0, 0)], edges = [], sp = [0]\<rparr>))
   \<and> reported_time (dijkstra True graph_one 0 0) = Some 0"
  by code_simp

text \<open>
  Claim C8, amended. The "infinite" distance is the finite sentinel 999999: for an in-range
  source and a different in-range destination, if every candidate distance that the
  relaxations of the run compute for the destination is at least 999999, the destination
  keeps the distance 999999 and is reported as "no path", with the outcome of a
  disconnected destination, even when a connecting path exists. The candidates are those
  that the code computes, in \<^verbatim>\<open>int\<close>.
\<close>

theorem dijkstra_sentinel:
  assumes "wf_graph g"
    and "0 \<le> src" "src < vertices g" "0 \<le> dest" "dest < vertices g" and "src \<noteq> dest"
    and "\<forall>c. (nat dest, c) \<in> set (dijkstra_candidates g (nat dest) (dijkstra_init g (nat src)))
               \<longrightarrow> 999999 \<le> c"
  shows "dijkstra fp g src dest = NoPathFound (exportLeafletMap fp g [0] 0)
         \<and> dist_s (dijkstra_search g (nat src) (nat dest)) ! nat dest = 999999"
proof -
  define s where "s = nat src"
  define t where "t = nat dest"
  have s: "s < nv g" and t: "t < nv g" and st: "s \<noteq> t"
    using assms(2-6) by (simp_all add: s_def t_def nat_less_nv)
  note p = dijkstra_init_props(1) [OF s]
  have "dist_s (dijkstra_loop g t (dijkstra_init g s)) ! t = INF_c"
    using assms(7) s t st
    by (intro dijkstra_loop_keep) (simp_all add: p s_def [symmetric] t_def [symmetric] INF_c_def)
  then have "dist_s (dijkstra_search g (nat src) (nat dest)) ! nat dest = INF_c"
    by (simp add: dijkstra_search_def s_def t_def)
  then show ?thesis
    using dijkstra_outcome [OF assms(2-5), of fp] by (simp add: INF_c_def)
qed

theorem dijkstra_sentinel_witness:
  "wf_graph graph_long_road
   \<and> (0::int) \<le> 0 \<and> 0 < vertices graph_long_road
   \<and> (0::int) \<le> 1 \<and> 1 < vertices graph_long_road \<and> (0::int) \<noteq> 1
   \<and> dijkstra_candidates graph_long_road (nat 1) (dijkstra_init graph_long_road (nat 0)) = [(1, 999999)]
   \<and> is_walk graph_long_road (nat 0) [\<lparr>to = 1, weight = 999999\<rparr>] (nat 1)
   \<and> dijkstra True graph_long_road 0 1
       = NoPathFound (Some \<lparr>nodes = [(0, ''J'', 0, 0), (1, ''J'', 0, 0)],
                            edges = [(0, 1, 999999)], sp = []\<rparr>)"
proof -
  have wf: "wf_graph graph_long_road"
    by code_simp
  have v: "vertices graph_long_road = 2"
    by (simp add: graph_long_road_def example_graph_def)
  have c: "dijkstra_candidates graph_long_road (nat 1) (dijkstra_init graph_long_road (nat 0)) = [(1, 999999)]"
    by code_simp
  have w: "is_walk graph_long_road (nat 0) [\<lparr>to = 1, weight = 999999\<rparr>] (nat 1)"
    by code_simp
  have x: "exportLeafletMap True graph_long_road [0] 0
      = Some \<lparr>nodes = [(0, ''J'', 0, 0), (1, ''J'', 0, 0)], edges = [(0, 1, 999999)], sp = []\<rparr>"
    by code_simp
  have all: "\<forall>c. (nat 1, c) \<in> set (dijkstra_candidates graph_long_road (nat 1)
                  (dijkstra_init graph_long_road (nat 0))) \<longrightarrow> 999999 \<le> c"
    unfolding c by simp
  have "dijkstra True graph_long_road 0 1 = NoPathFound (exportLeafletMap True graph_long_road [0] 0)"
    using dijkstra_sentinel [OF wf _ _ _ _ _ all, of True] by (simp add: v)
  then show ?thesis
    using wf c w by (simp add: v x)
qed

section \<open>Optimality of the search\<close>

lemma getWaitingTime_mono:
  assumes l: "0 \<le> red l" "0 \<le> green l" "0 \<le> yellow l"
    and f: "red l + green l + yellow l \<le> INT_MAX_c" and ab: "0 \<le> a" "a \<le> b"
  shows "a + getWaitingTime l a \<le> b + getWaitingTime l b"
proof (cases "red l + green l + yellow l \<le> 0")
  case True
  have b: "0 \<le> b" using ab by simp
  show ?thesis
    using True ab getWaitingTime_exact [OF l f ab(1)] getWaitingTime_exact [OF l f b] by simp
next
  case False
  define c where "c = red l + green l + yellow l"
  have c: "0 < c" using False by (simp add: c_def)
  have b: "0 \<le> b" using ab by simp
  have ga: "getWaitingTime l a = (if a mod c < green l then 0 else c - a mod c)"
    using c getWaitingTime_exact [OF l f ab(1)] by (simp add: c_def)
  have gb: "getWaitingTime l b = (if b mod c < green l then 0 else c - b mod c)"
    using c getWaitingTime_exact [OF l f b] by (simp add: c_def)
  have nb: "0 \<le> getWaitingTime l b" using b by (rule getWaitingTime_nonneg)
  show ?thesis
  proof (cases "a mod c < green l")
    case True
    then show ?thesis using ga nb ab by simp
  next
    case na: False
    have fa: "a + getWaitingTime l a = c * (a div c) + c"
      using ga na by (simp add: minus_mod_eq_mult_div [symmetric] algebra_simps)
    show ?thesis
    proof (cases "a div c = b div c")
      case True
      have "b = c * (b div c) + b mod c" by simp
      moreover have "a = c * (a div c) + a mod c" by simp
      ultimately have "a mod c \<le> b mod c"
        using ab(2) True by (metis add_le_cancel_left)
      then have "\<not> b mod c < green l" using na by simp
      then have "b + getWaitingTime l b = c * (b div c) + c"
        using gb by (simp add: minus_mod_eq_mult_div [symmetric] algebra_simps)
      then show ?thesis using fa True by simp
    next
      case False
      have "a div c \<le> b div c"
        using ab(2) c by (simp add: zdiv_mono1)
      then have "a div c + 1 \<le> b div c" using False by simp
      then have "c * (a div c + 1) \<le> c * (b div c)"
        using c by (simp add: mult_left_mono)
      also have "\<dots> \<le> b"
      proof -
        have "c * (b div c) + b mod c = b" by simp
        moreover have "0 \<le> b mod c" using c by simp
        ultimately show ?thesis by linarith
      qed
      finally have "c * (a div c) + c \<le> b" by (simp add: algebra_simps)
      then show ?thesis using fa nb by simp
    qed
  qed
qed

lemma path_time_Cons: "path_time g t (e # es) = path_time g (edge_time g t e) es"
  by (simp add: edge_time_def)

lemma path_time_snoc: "path_time g t (es @ [e]) = edge_time g (path_time g t es) e"
  by (simp add: path_time_append edge_time_def)

lemma nonneg_graphD:
  assumes "nonneg_graph g"
  shows "u < nv g \<Longrightarrow> e \<in> set (adj g ! u) \<Longrightarrow> 0 \<le> weight e"
    and "v < nv g \<Longrightarrow> 0 \<le> red (lights g ! v) \<and> 0 \<le> green (lights g ! v) \<and> 0 \<le> yellow (lights g ! v)"
  using assms unfolding nonneg_graph_def by blast+

lemma no_overflowD:
  assumes "no_overflow g" "u < nv g" "e \<in> set (adj g ! u)"
  shows "weight e + (red (lights g ! to e) + green (lights g ! to e) + yellow (lights g ! to e))
           \<le> INT_MAX_c - INF_c"
  using assms unfolding no_overflow_def by blast

text \<open>
  On a road of a non-negative graph without overflow the cycle of the junction entered fits
  an \<^verbatim>\<open>int\<close>, and so does every sum that starts from a distance between 0 and the sentinel.
\<close>

lemma cycle_fits:
  assumes "wf_graph g" "nonneg_graph g" "no_overflow g" "u < nv g" "e \<in> set (adj g ! u)"
  shows "red (lights g ! to e) + green (lights g ! to e) + yellow (lights g ! to e) \<le> INT_MAX_c"
  using no_overflowD [OF assms(3,4,5)] nonneg_graphD(1) [OF assms(2,4,5)]
  by (simp add: INF_c_def)

lemma getWaitingTime_le:
  assumes "0 \<le> red l" "0 \<le> green l" "0 \<le> yellow l" "0 \<le> a"
  shows "getWaitingTime l a \<le> red l + green l + yellow l"
proof -
  define c where "c = c_int (red l + green l + yellow l)"
  have cs: "c \<le> red l + green l + yellow l"
    unfolding c_def using assms(1-3) by (intro c_int_le) simp
  have "0 \<le> a mod c" if "0 < c"
    using that by simp
  then show ?thesis
    using getWaitingTime_cases [OF assms(4), of l, folded c_def] cs assms(1-3)
    by (cases "0 < c") auto
qed

lemma edge_time_ge:
  assumes "nonneg_graph g" "u < nv g" "e \<in> set (adj g ! u)" "0 \<le> t"
  shows "t \<le> edge_time g t e"
proof -
  have w: "0 \<le> weight e" by (rule nonneg_graphD(1) [OF assms(1,2,3)])
  then have "0 \<le> t + weight e" using assms(4) by simp
  then have "0 \<le> getWaitingTime (lights g ! to e) (t + weight e)"
    by (rule getWaitingTime_nonneg)
  then show ?thesis using w by (simp add: edge_time_def)
qed

lemma new_dist_edge_time:
  assumes wf: "wf_graph g" and nn: "nonneg_graph g" and no: "no_overflow g"
    and u: "u < nv g" and e: "e \<in> set (adj g ! u)"
    and d: "0 \<le> dist_s st ! u" "dist_s st ! u \<le> INF_c"
  shows "new_dist g st u e = edge_time g (dist_s st ! u) e"
proof -
  define a where "a = dist_s st ! u + weight e"
  define l where "l = lights g ! to e"
  have w: "0 \<le> weight e" by (rule nonneg_graphD(1) [OF nn u e])
  have ln: "0 \<le> red l \<and> 0 \<le> green l \<and> 0 \<le> yellow l"
    unfolding l_def by (rule nonneg_graphD(2) [OF nn wf_graph_to [OF wf u e]])
  note b = no_overflowD [OF no u e, folded l_def]
  have a0: "0 \<le> a" using d(1) w by (simp add: a_def)
  have a1: "a \<le> INT_MAX_c" using d(2) b ln by (simp add: a_def)
  have 1: "add_c (dist_s st ! u) (weight e) = a"
    unfolding add_c_def a_def [symmetric] using a0 a1 by (intro c_int_id) (simp_all add: INT_MIN_c_def)
  have g0: "0 \<le> getWaitingTime l a" using a0 by (rule getWaitingTime_nonneg)
  have g1: "getWaitingTime l a \<le> red l + green l + yellow l"
    using ln a0 by (intro getWaitingTime_le) simp_all
  have "add_c a (getWaitingTime l a) = a + getWaitingTime l a"
    unfolding add_c_def using a0 g0 g1 d(2) b by (intro c_int_id) (simp_all add: INT_MIN_c_def a_def)
  then show ?thesis
    by (simp add: new_dist_def edge_time_def 1 a_def [symmetric] l_def [symmetric])
qed

lemma edge_time_mono:
  assumes "wf_graph g" "nonneg_graph g" "no_overflow g" "u < nv g" "e \<in> set (adj g ! u)"
    "0 \<le> a" "a \<le> b"
  shows "edge_time g a e \<le> edge_time g b e"
proof -
  have w: "0 \<le> weight e" by (rule nonneg_graphD(1) [OF assms(2,4,5)])
  note l = nonneg_graphD(2) [OF assms(2) wf_graph_to [OF assms(1,4,5)]]
  note f = cycle_fits [OF assms(1-5)]
  have "(a + weight e) + getWaitingTime (lights g ! to e) (a + weight e)
          \<le> (b + weight e) + getWaitingTime (lights g ! to e) (b + weight e)"
    using l w f assms(6,7) by (intro getWaitingTime_mono) simp_all
  then show ?thesis by (simp add: edge_time_def)
qed

lemma path_time_mono:
  assumes "wf_graph g" "nonneg_graph g" "no_overflow g"
  shows "u < nv g \<Longrightarrow> is_walk g u es v \<Longrightarrow> 0 \<le> a \<Longrightarrow> a \<le> b \<Longrightarrow>
           path_time g a es \<le> path_time g b es"
proof (induction es arbitrary: u a b)
  case Nil
  then show ?case by simp
next
  case (Cons e es)
  have e: "e \<in> set (adj g ! u)" "is_walk g (to e) es v"
    using Cons.prems(2) by simp_all
  have "edge_time g a e \<le> edge_time g b e"
    by (rule edge_time_mono [OF assms Cons.prems(1) e(1) Cons.prems(3,4)])
  moreover have "0 \<le> edge_time g a e"
    using edge_time_ge [OF assms(2) Cons.prems(1) e(1) Cons.prems(3)] Cons.prems(3) by simp
  ultimately show ?case
    unfolding path_time_Cons
    by (rule Cons.IH [OF wf_graph_to [OF assms(1) Cons.prems(1) e(1)] e(2), rotated 1])
qed

text \<open>Cutting the loops out of a route does not make it slower.\<close>

lemma is_walk_split:
  "is_walk g u es v \<Longrightarrow> x \<in> set (map to es) \<Longrightarrow>
     \<exists>as bs. es = as @ bs \<and> as \<noteq> [] \<and> is_walk g u as x \<and> is_walk g x bs v"
proof (induction es arbitrary: u)
  case Nil
  then show ?case by simp
next
  case (Cons e es)
  have e: "e \<in> set (adj g ! u)" "is_walk g (to e) es v"
    using Cons.prems(1) by simp_all
  show ?case
  proof (cases "to e = x")
    case True
    then have "e # es = [e] @ es \<and> [e] \<noteq> [] \<and> is_walk g u [e] x \<and> is_walk g x es v"
      using e by simp
    then show ?thesis by blast
  next
    case False
    then have "x \<in> set (map to es)" using Cons.prems(2) by simp
    then obtain as bs where s: "es = as @ bs" "as \<noteq> []" "is_walk g (to e) as x" "is_walk g x bs v"
      using Cons.IH [OF e(2)] by blast
    then have "e # es = (e # as) @ bs \<and> e # as \<noteq> [] \<and> is_walk g u (e # as) x \<and> is_walk g x bs v"
      using e(1) by simp
    then show ?thesis by blast
  qed
qed

lemma walk_to_simple_path:
  assumes "wf_graph g" "nonneg_graph g" "no_overflow g"
  shows "u < nv g \<Longrightarrow> is_walk g u es v \<Longrightarrow> 0 \<le> t \<Longrightarrow>
           \<exists>fs. simple_path g u fs v \<and> path_time g t fs \<le> path_time g t es"
proof (induction es arbitrary: u t)
  case Nil
  then have "simple_path g u [] v \<and> path_time g t [] \<le> path_time g t []"
    by (simp add: simple_path_def)
  then show ?case by blast
next
  case (Cons e es)
  have e: "e \<in> set (adj g ! u)" "is_walk g (to e) es v"
    using Cons.prems(2) by simp_all
  have te: "to e < nv g" by (rule wf_graph_to [OF assms(1) Cons.prems(1) e(1)])
  have t1: "t \<le> edge_time g t e"
    by (rule edge_time_ge [OF assms(2) Cons.prems(1) e(1) Cons.prems(3)])
  then have t1': "0 \<le> edge_time g t e" using Cons.prems(3) by simp
  obtain fs where fs: "is_walk g (to e) fs v" "distinct (to e # map to fs)"
    "path_time g (edge_time g t e) fs \<le> path_time g (edge_time g t e) es"
    using Cons.IH [OF te e(2) t1'] by (auto simp: simple_path_def)
  show ?case
  proof (cases "u \<in> set (to e # map to fs)")
    case False
    then have "simple_path g u (e # fs) v"
      using fs(1,2) e(1) by (simp add: simple_path_def)
    moreover have "path_time g t (e # fs) \<le> path_time g t (e # es)"
      unfolding path_time_Cons by (rule fs(3))
    ultimately show ?thesis by blast
  next
    case True
    then have "u \<in> set (map to (e # fs))" by simp
    moreover have "is_walk g u (e # fs) v" using e(1) fs(1) by simp
    ultimately obtain as bs where s: "e # fs = as @ bs" "as \<noteq> []" "is_walk g u as u" "is_walk g u bs v"
      using is_walk_split [of g u "e # fs" v u] by blast
    have "distinct (map to (as @ bs))"
      using fs(2) s(1) by (metis list.simps(9))
    then have d: "distinct (map to bs)" "set (map to as) \<inter> set (map to bs) = {}"
      by simp_all
    have "u \<in> set (map to as)"
    proof -
      have "as = butlast as @ [last as]" using s(2) by simp
      then have "is_walk g u (butlast as @ [last as]) u" using s(3) by simp
      then have "to (last as) = u" by (auto simp: is_walk_append)
      then show ?thesis using s(2) by (metis last_in_set image_eqI set_map)
    qed
    then have "u \<notin> set (map to bs)" using d(2) by blast
    then have sp: "simple_path g u bs v"
      using s(4) d(1) by (simp add: simple_path_def)
    have "t \<le> path_time g t as"
      by (rule path_time_ge [OF assms(1,2) Cons.prems(1) s(3) Cons.prems(3)])
    then have "path_time g t bs \<le> path_time g (path_time g t as) bs"
      by (rule path_time_mono [OF assms Cons.prems(1) s(4) Cons.prems(3)])
    also have "\<dots> = path_time g t (e # fs)"
      by (simp add: s(1) path_time_append)
    also have "\<dots> \<le> path_time g t (e # es)"
      unfolding path_time_Cons by (rule fs(3))
    finally show ?thesis using sp by blast
  qed
qed

lemma dinv1D:
  assumes "dinv1 g s st"
  shows "v < nv g \<Longrightarrow> 0 \<le> dist_s st ! v"
    and "dist_s st ! s \<le> 0"
    and "c < nv g \<Longrightarrow> x < nv g \<Longrightarrow> pos (heap_s st) ! c = - 1 \<Longrightarrow>
           pos (heap_s st) ! x \<noteq> - 1 \<Longrightarrow> dist_s st ! c \<le> dist_s st ! x"
    and "c < nv g \<Longrightarrow> pos (heap_s st) ! c = - 1 \<Longrightarrow> e \<in> set (adj g ! c) \<Longrightarrow>
           dist_s st ! to e \<le> edge_time g (dist_s st ! c) e"
  using assms unfolding dinv1_def by fast+

lemma rinvD:
  assumes "rinv g s u D st"
  shows "v < nv g \<Longrightarrow> 0 \<le> dist_s st ! v"
    and "dist_s st ! s \<le> 0"
    and "c < nv g \<Longrightarrow> x < nv g \<Longrightarrow> pos (heap_s st) ! c = - 1 \<Longrightarrow>
           pos (heap_s st) ! x \<noteq> - 1 \<Longrightarrow> dist_s st ! c \<le> dist_s st ! x"
    and "pos (heap_s st) ! u = - 1"
    and "c < nv g \<Longrightarrow> pos (heap_s st) ! c = - 1 \<Longrightarrow> dist_s st ! c \<le> dist_s st ! u"
    and "c < nv g \<Longrightarrow> pos (heap_s st) ! c = - 1 \<Longrightarrow> c \<noteq> u \<Longrightarrow> e \<in> set (adj g ! c) \<Longrightarrow>
           dist_s st ! to e \<le> edge_time g (dist_s st ! c) e"
    and "e \<in> D \<Longrightarrow> dist_s st ! to e \<le> edge_time g (dist_s st ! u) e"
  using assms unfolding rinv_def by fast+

lemma rinv_done:
  assumes "rinv g s u (set (adj g ! u)) st"
  shows "dinv1 g s st"
  unfolding dinv1_def
proof (intro conjI allI impI ballI)
  fix c e assume c: "c < nv g" "pos (heap_s st) ! c = - 1" "e \<in> set (adj g ! c)"
  show "dist_s st ! to e \<le> edge_time g (dist_s st ! c) e"
  proof (cases "c = u")
    case True
    then show ?thesis using rinvD(7) [OF assms, of e] c(3) by simp
  next
    case False
    then show ?thesis using rinvD(6) [OF assms c(1,2) _ c(3)] by simp
  qed
next
  fix c x assume "c < nv g" "x < nv g" "pos (heap_s st) ! c = - 1" "pos (heap_s st) ! x \<noteq> - 1"
  then show "dist_s st ! c \<le> dist_s st ! x" by (rule rinvD(3) [OF assms])
next
  fix v assume "v < nv g"
  then show "0 \<le> dist_s st ! v" by (rule rinvD(1) [OF assms])
next
  show "dist_s st ! s \<le> 0" by (rule rinvD(2) [OF assms])
qed

lemma extract_rinv:
  assumes i0: "dinv0 g s st" and i1: "dinv1 g s st" and z: "0 < size_h (heap_s st)"
  shows "rinv g s (vtx (heap_s st) 0) {} (st\<lparr>heap_s := snd (extractMin (heap_s st))\<rparr>)"
proof -
  define u where "u = vtx (heap_s st) 0"
  define h' where "h' = snd (extractMin (heap_s st))"
  note x = extract_dinv0 [OF i0 z, folded u_def h'_def]
  note j = dinv1D [OF i1]
  have uo: "pos (heap_s st) ! u \<noteq> - 1"
    using winv_slot [OF dinv0D(3) [OF i0] z] by (simp add: u_def)
  have cl: "pos h' ! c = - 1 \<longleftrightarrow> c = u \<or> pos (heap_s st) ! c = - 1" if "c < nv g" for c
    using x(5) [OF that] .
  have a: "dist_s st ! c \<le> dist_s st ! y"
    if "c < nv g" "y < nv g" "pos h' ! c = - 1" "pos h' ! y \<noteq> - 1" for c y
  proof (cases "c = u")
    case True
    then show ?thesis using x(3) x(6) [OF that(2)] cl [OF that(2)] that(4) by simp
  next
    case False
    then show ?thesis using j(3) [OF that(1,2)] cl [OF that(1)] cl [OF that(2)] that(3,4) by simp
  qed
  have b: "dist_s st ! c \<le> dist_s st ! u" if "c < nv g" "pos h' ! c = - 1" for c
  proof (cases "c = u")
    case True
    then show ?thesis by simp
  next
    case False
    then show ?thesis using j(3) [OF that(1) x(2) _ uo] cl [OF that(1)] that(2) by simp
  qed
  have c: "dist_s st ! to e \<le> edge_time g (dist_s st ! c) e"
    if "c < nv g" "pos h' ! c = - 1" "c \<noteq> u" "e \<in> set (adj g ! c)" for c e
    using j(4) [OF that(1) _ that(4)] cl [OF that(1)] that(2,3) by simp
  have A1: "\<forall>v < nv g. 0 \<le> dist_s st ! v"
    using j(1) by blast
  have A3: "\<forall>c < nv g. \<forall>x < nv g.
        pos h' ! c = - 1 \<longrightarrow> pos h' ! x \<noteq> - 1 \<longrightarrow> dist_s st ! c \<le> dist_s st ! x"
    using a by blast
  have A5: "\<forall>c < nv g. pos h' ! c = - 1 \<longrightarrow> dist_s st ! c \<le> dist_s st ! u"
    using b by blast
  have A6: "\<forall>c < nv g. pos h' ! c = - 1 \<longrightarrow> c \<noteq> u \<longrightarrow>
        (\<forall>e \<in> set (adj g ! c). dist_s st ! to e \<le> edge_time g (dist_s st ! c) e)"
    using c by blast
  show ?thesis
    unfolding rinv_def u_def [symmetric] h'_def [symmetric]
    using A1 j(2) A3 x(4) A5 A6 by simp
qed

lemma relax_rinv:
  assumes wf: "wf_graph g" and nn: "nonneg_graph g" and no: "no_overflow g"
    and i0: "dinv0 g s st" and r: "rinv g s u D st"
    and u: "u < nv g" and e: "e \<in> set (adj g ! u)"
  shows "rinv g s u (insert e D) (relax g u st e)"
proof -
  define st' where "st' = relax g u st e"
  define v where "v = to e"
  define d where "d = edge_time g (dist_s st ! u) e"
  note w = dinv0D(3) [OF i0]
  note len = dinv0D(1) [OF i0]
  have v: "v < nv g" unfolding v_def by (rule wf_graph_to [OF wf u e])
  note q = rinvD [OF r]
  have du: "dist_s st ! u \<le> d"
    unfolding d_def by (rule edge_time_ge [OF nn u e q(1) [OF u]])
  have nd: "new_dist g st u e = d"
    unfolding d_def by (rule new_dist_edge_time [OF wf nn no u e q(1) [OF u] dinv0D(5) [OF i0 u]])
  have ds: "dist_s st' = (if pos (heap_s st) ! v \<noteq> - 1 \<and> d < dist_s st ! v
                          then (dist_s st)[v := d] else dist_s st)"
    using relax_dist [OF w, where e = e and g = g and u = u] v
    by (simp add: st'_def v_def nd)
  have ps: "pos (heap_s st') ! x = - 1 \<longleftrightarrow> pos (heap_s st) ! x = - 1" if "x < nv g" for x
    using relax_pos_absent [OF w _ that, where e = e and g = g and u = u] v
    by (simp add: st'_def v_def)
  have le: "dist_s st' ! x \<le> dist_s st ! x" if "x < nv g" for x
    using that len v by (auto simp: ds nth_list_update)
  have eq: "dist_s st' ! x = dist_s st ! x" if "x < nv g" "pos (heap_s st) ! x = - 1" for x
  proof (cases "x = v")
    case True
    then show ?thesis using that(2) by (simp add: ds)
  next
    case False
    then show ?thesis by (simp add: ds)
  qed
  have ge: "dist_s st ! u \<le> dist_s st' ! x \<or> dist_s st' ! x = dist_s st ! x" if "x < nv g" for x
    using that len du v by (auto simp: ds nth_list_update)
  have lv: "dist_s st' ! v \<le> d"
  proof (cases "pos (heap_s st) ! v = - 1")
    case True
    then show ?thesis using eq [OF v True] q(5) [OF v True] du by simp
  next
    case False
    then show ?thesis using len v by (auto simp: ds)
  qed
  have 1: "0 \<le> dist_s st' ! x" if "x < nv g" for x
    using ge [OF that] q(1) [OF that] q(1) [OF u] by auto
  have 2: "dist_s st' ! s \<le> 0"
  proof (cases "s < nv g")
    case True
    then show ?thesis using le [OF True] q(2) by simp
  next
    case False
    then have "dist_s st' ! s = dist_s st ! s"
      using v by (auto simp: ds)
    then show ?thesis using q(2) by simp
  qed
  have 3: "dist_s st' ! c \<le> dist_s st' ! x"
    if "c < nv g" "x < nv g" "pos (heap_s st') ! c = - 1" "pos (heap_s st') ! x \<noteq> - 1" for c x
  proof -
    have c: "pos (heap_s st) ! c = - 1" and x: "pos (heap_s st) ! x \<noteq> - 1"
      using that ps by simp_all
    have "dist_s st ! c \<le> dist_s st ! u" "dist_s st ! c \<le> dist_s st ! x"
      using q(5) [OF that(1) c] q(3) [OF that(1,2) c x] by simp_all
    then show ?thesis
      using eq [OF that(1) c] ge [OF that(2)] by auto
  qed
  have 5: "dist_s st' ! c \<le> dist_s st' ! u" if "c < nv g" "pos (heap_s st') ! c = - 1" for c
  proof -
    have c: "pos (heap_s st) ! c = - 1" using that ps by simp
    show ?thesis using eq [OF that(1) c] eq [OF u q(4)] q(5) [OF that(1) c] by simp
  qed
  have 6: "dist_s st' ! to f \<le> edge_time g (dist_s st' ! c) f"
    if "c < nv g" "pos (heap_s st') ! c = - 1" "c \<noteq> u" "f \<in> set (adj g ! c)" for c f
  proof -
    have c: "pos (heap_s st) ! c = - 1" using that ps by simp
    have "dist_s st' ! to f \<le> dist_s st ! to f"
      by (rule le [OF wf_graph_to [OF wf that(1,4)]])
    then show ?thesis using q(6) [OF that(1) c that(3,4)] eq [OF that(1) c] by simp
  qed
  have 7: "dist_s st' ! to f \<le> edge_time g (dist_s st' ! u) f" if "f \<in> insert e D" for f
  proof (cases "f = e")
    case True
    then show ?thesis using lv eq [OF u q(4)] by (simp add: v_def d_def)
  next
    case False
    then have f: "f \<in> D" using that by simp
    have "dist_s st ! to f \<le> edge_time g (dist_s st ! u) f" by (rule q(7) [OF f])
    moreover have "dist_s st' ! to f \<le> dist_s st ! to f"
    proof (cases "to f = v")
      case True
      then show ?thesis using le [OF v] by simp
    next
      case False
      then show ?thesis by (simp add: ds)
    qed
    ultimately show ?thesis using eq [OF u q(4)] by simp
  qed
  have 4: "pos (heap_s st') ! u = - 1"
    using ps [OF u] q(4) by simp
  have A1: "\<forall>v < nv g. 0 \<le> dist_s st' ! v"
    using 1 by blast
  have A3: "\<forall>c < nv g. \<forall>x < nv g.
        pos (heap_s st') ! c = - 1 \<longrightarrow> pos (heap_s st') ! x \<noteq> - 1 \<longrightarrow> dist_s st' ! c \<le> dist_s st' ! x"
    using 3 by blast
  have A5: "\<forall>c < nv g. pos (heap_s st') ! c = - 1 \<longrightarrow> dist_s st' ! c \<le> dist_s st' ! u"
    using 5 by blast
  have A6: "\<forall>c < nv g. pos (heap_s st') ! c = - 1 \<longrightarrow> c \<noteq> u \<longrightarrow>
        (\<forall>e \<in> set (adj g ! c). dist_s st' ! to e \<le> edge_time g (dist_s st' ! c) e)"
    using 6 by blast
  have A7: "\<forall>f \<in> insert e D. dist_s st' ! to f \<le> edge_time g (dist_s st' ! u) f"
    using 7 by blast
  show ?thesis
    unfolding rinv_def st'_def [symmetric]
    using A1 2 A3 4 A5 A6 A7 by (intro conjI)
qed

lemma foldl_relax_rinv:
  assumes wf: "wf_graph g" and nn: "nonneg_graph g" and no: "no_overflow g" and u: "u < nv g"
  shows "dinv0 g s st \<Longrightarrow> rinv g s u D st \<Longrightarrow> set es \<subseteq> set (adj g ! u) \<Longrightarrow>
     dist_s st ! u \<noteq> INF_c \<Longrightarrow> rinv g s u (D \<union> set es) (foldl (relax g u) st es)"
proof (induction es arbitrary: st D)
  case Nil
  then show ?case by simp
next
  case (Cons e es)
  have e: "e \<in> set (adj g ! u)" "to e < nv g"
    using Cons.prems(3) wf_graph_to [OF wf u] by auto
  note w = dinv0D(3) [OF Cons.prems(1)]
  have cu: "pos (heap_s st) ! u = - 1" by (rule rinvD(4) [OF Cons.prems(2)])
  have 1: "dinv0 g s (relax g u st e)"
    by (rule relax_dinv0 [OF Cons.prems(1) e u Cons.prems(4)])
  have 2: "rinv g s u (insert e D) (relax g u st e)"
    by (rule relax_rinv [OF wf nn no Cons.prems(1,2) u e(1)])
  have 3: "dist_s (relax g u st e) ! u \<noteq> INF_c"
    using relax_dist_closed [OF w e(2) cu] Cons.prems(4) by simp
  have "rinv g s u (insert e D \<union> set es) (foldl (relax g u) (relax g u st e) es)"
    using Cons.IH [OF 1 2 _ 3] Cons.prems(3) by simp
  then show ?case by simp
qed

text \<open>
  At the head of the main loop no route beats the distances: a route into a closed junction
  takes at least its distance, and a route into an open junction takes at least the distance
  of some open junction.
\<close>

lemma lower_bound:
  assumes wf: "wf_graph g" and nn: "nonneg_graph g" and no: "no_overflow g" and s: "s < nv g"
    and i1: "dinv1 g s st"
  shows "is_walk g s es x \<Longrightarrow>
     (pos (heap_s st) ! x = - 1 \<longrightarrow> dist_s st ! x \<le> path_time g 0 es) \<and>
     (pos (heap_s st) ! x \<noteq> - 1 \<longrightarrow>
        (\<exists>y < nv g. pos (heap_s st) ! y \<noteq> - 1 \<and> dist_s st ! y \<le> path_time g 0 es))"
proof (induction es arbitrary: x rule: rev_induct)
  case Nil
  then have "x = s" by simp
  then show ?case using dinv1D(2) [OF i1] s by auto
next
  case (snoc e fs)
  note j = dinv1D [OF i1]
  obtain y where y: "is_walk g s fs y" "e \<in> set (adj g ! y)" "to e = x"
    using snoc.prems by (auto simp: is_walk_append)
  have yn: "y < nv g" by (rule is_walk_in_range [OF wf s y(1)])
  have xn: "x < nv g" using wf_graph_to [OF wf yn y(2)] y(3) by simp
  define T0 where "T0 = path_time g 0 fs"
  define T where "T = path_time g 0 (fs @ [e])"
  have T: "T = edge_time g T0 e" by (simp add: T_def T0_def path_time_snoc)
  have T0: "0 \<le> T0" unfolding T0_def by (rule path_time_ge [OF wf nn s y(1) order_refl])
  have TT: "T0 \<le> T" unfolding T by (rule edge_time_ge [OF nn yn y(2) T0])
  note ih = snoc.IH [OF y(1), folded T0_def]
  show ?case
    unfolding T_def [symmetric]
  proof (cases "pos (heap_s st) ! y = - 1")
    case True
    then have "dist_s st ! y \<le> T0" using ih by simp
    then have "edge_time g (dist_s st ! y) e \<le> T"
      unfolding T by (rule edge_time_mono [OF wf nn no yn y(2) j(1) [OF yn]])
    then have "dist_s st ! x \<le> T"
      using j(4) [OF yn True y(2)] y(3) by simp
    then show "(pos (heap_s st) ! x = - 1 \<longrightarrow> dist_s st ! x \<le> T) \<and>
        (pos (heap_s st) ! x \<noteq> - 1 \<longrightarrow> (\<exists>y<nv g. pos (heap_s st) ! y \<noteq> - 1 \<and> dist_s st ! y \<le> T))"
      using xn by blast
  next
    case False
    then obtain y' where y': "y' < nv g" "pos (heap_s st) ! y' \<noteq> - 1" "dist_s st ! y' \<le> T0"
      using ih by blast
    have "dist_s st ! x \<le> T" if "pos (heap_s st) ! x = - 1"
      using j(3) [OF xn y'(1) that y'(2)] y'(3) TT by simp
    moreover have "dist_s st ! y' \<le> T" using y'(3) TT by simp
    ultimately show "(pos (heap_s st) ! x = - 1 \<longrightarrow> dist_s st ! x \<le> T) \<and>
        (pos (heap_s st) ! x \<noteq> - 1 \<longrightarrow> (\<exists>y<nv g. pos (heap_s st) ! y \<noteq> - 1 \<and> dist_s st ! y \<le> T))"
      using y'(1,2) by blast
  qed
qed

lemma dijkstra_loop_lower:
  assumes wf: "wf_graph g" and nn: "nonneg_graph g" and no: "no_overflow g"
    and s: "s < nv g" and t: "t < nv g"
    and walk: "is_walk g s es t"
  shows "dinv0 g s st \<Longrightarrow> dinv1 g s st \<Longrightarrow> pos (heap_s st) ! t \<noteq> - 1 \<Longrightarrow>
     dist_s (dijkstra_loop g t st) ! t \<le> path_time g 0 es"
proof (induction "size_h (heap_s st)" arbitrary: st rule: less_induct)
  case less
  note i = dinv0D [OF less.prems(1)]
  have z: "0 < size_h (heap_s st)"
    using winv_index [OF i(3) t less.prems(3)] by simp
  note x = extract_dinv0 [OF less.prems(1) z]
  define u where "u = vtx (heap_s st) 0"
  define st1 where "st1 = st\<lparr>heap_s := snd (extractMin (heap_s st))\<rparr>"
  obtain y where y: "y < nv g" "pos (heap_s st) ! y \<noteq> - 1" "dist_s st ! y \<le> path_time g 0 es"
    using lower_bound [OF wf nn no s less.prems(2) walk] less.prems(3) by blast
  have ky: "key (heap_s st) 0 \<le> path_time g 0 es"
    using x(6) [OF y(1,2)] y(3) by simp
  show ?case
  proof (cases "key (heap_s st) 0 = INF_c \<or> u = t")
    case True
    then have r: "dijkstra_loop g t st = st1"
      by (simp add: dijkstra_loop_step [OF i(2) z] u_def st1_def)
    have "dist_s st ! t \<le> key (heap_s st) 0"
    proof (cases "u = t")
      case True
      then show ?thesis using x(3) by (simp add: u_def)
    next
      case False
      then show ?thesis using True i(5) [OF t] by simp
    qed
    then show ?thesis using ky by (simp add: r st1_def)
  next
    case False
    define st2 where "st2 = foldl (relax g u) st1 (adj g ! u)"
    have un: "u < nv g" using x(2) by (simp add: u_def)
    have d1: "dinv0 g s st1" using x(1) by (simp add: st1_def)
    have cu: "pos (heap_s st1) ! u = - 1" using x(4) by (simp add: st1_def u_def)
    have du: "dist_s st1 ! u \<noteq> INF_c" using x(3) False by (simp add: st1_def u_def)
    have r1: "rinv g s u {} st1"
      using extract_rinv [OF less.prems(1,2) z] by (simp add: st1_def u_def)
    note f = foldl_relax_dinv0 [OF wf un d1 subset_refl cu du, folded st2_def]
    have d2: "dinv0 g s st2" using f by simp
    have "rinv g s u ({} \<union> set (adj g ! u)) st2"
      unfolding st2_def by (rule foldl_relax_rinv [OF wf nn no un d1 r1 subset_refl du])
    then have i2: "dinv1 g s st2" using rinv_done by simp
    have "pos (heap_s st1) ! t \<noteq> - 1"
      using x(5) [OF t] False less.prems(3) by (simp add: st1_def u_def)
    then have t2: "pos (heap_s st2) ! t \<noteq> - 1" using f t by simp
    have "size_h (heap_s st2) < size_h (heap_s st)"
      using z by (simp add: st2_def st1_def extractMin_size)
    then have "dist_s (dijkstra_loop g t st2) ! t \<le> path_time g 0 es"
      using less.hyps d2 i2 t2 by blast
    then show ?thesis
      using False by (simp add: dijkstra_loop_step [OF i(2) z] u_def st1_def st2_def)
  qed
qed

lemma dijkstra_init_dinv1:
  assumes "s < nv g"
  shows "dinv1 g s (dijkstra_init g s)"
    and "v < nv g \<Longrightarrow> pos (heap_s (dijkstra_init g s)) ! v \<noteq> - 1"
proof -
  note p = dijkstra_init_props [OF assms]
  have o: "pos (heap_s (dijkstra_init g s)) ! v \<noteq> - 1" if "v < nv g" for v
    using p(3) [OF that] by (simp add: hmap_None_iff [symmetric])
  show "v < nv g \<Longrightarrow> pos (heap_s (dijkstra_init g s)) ! v \<noteq> - 1"
    by (rule o)
  have n: "0 \<le> dist_s (dijkstra_init g s) ! v" if "v < nv g" for v
    using that by (cases "v = s") (simp_all add: p(1) INF_c_def)
  have z: "dist_s (dijkstra_init g s) ! s \<le> 0"
    using assms by (simp add: p(1))
  show "dinv1 g s (dijkstra_init g s)"
    unfolding dinv1_def using o n z by simp
qed

lemma dijkstra_search_lower:
  assumes "wf_graph g" "nonneg_graph g" "no_overflow g" "s < nv g" "t < nv g" "is_walk g s es t"
  shows "dist_s (dijkstra_search g s t) ! t \<le> path_time g 0 es"
  unfolding dijkstra_search_def
  by (rule dijkstra_loop_lower [OF assms dijkstra_init_dinv0 [OF assms(4)]
        dijkstra_init_dinv1(1) [OF assms(4)] dijkstra_init_dinv1(2) [OF assms(4,5)]])

text \<open>
  A distance below the sentinel is the travel time of a route: the candidate stored by a
  relaxation is the time of the route to the junction just extracted, extended by the edge.
\<close>

lemma tinvD:
  assumes "tinv g s st" "v < nv g" "dist_s st ! v \<noteq> INF_c"
  shows "\<exists>es. is_walk g s es v \<and> path_time g 0 es = dist_s st ! v"
  using assms unfolding tinv_def by blast

lemma relax_tinv:
  assumes wf: "wf_graph g" and nn: "nonneg_graph g" and no: "no_overflow g"
    and i0: "dinv0 g s st" and ti: "tinv g s st"
    and u: "u < nv g" and e: "e \<in> set (adj g ! u)"
    and du: "0 \<le> dist_s st ! u" "dist_s st ! u \<noteq> INF_c"
  shows "tinv g s (relax g u st e)"
proof -
  define v where "v = to e"
  define d where "d = edge_time g (dist_s st ! u) e"
  note w = dinv0D(3) [OF i0]
  note len = dinv0D(1) [OF i0]
  have v: "v < nv g" unfolding v_def by (rule wf_graph_to [OF wf u e])
  have nd: "new_dist g st u e = d"
    unfolding d_def by (rule new_dist_edge_time [OF wf nn no u e du(1) dinv0D(5) [OF i0 u]])
  have ds: "dist_s (relax g u st e) = (if pos (heap_s st) ! v \<noteq> - 1 \<and> d < dist_s st ! v
                          then (dist_s st)[v := d] else dist_s st)"
    using relax_dist [OF w, where e = e and g = g and u = u] v
    by (simp add: v_def nd)
  obtain es where es: "is_walk g s es u" "path_time g 0 es = dist_s st ! u"
    using tinvD [OF ti u du(2)] by blast
  have walk: "is_walk g s (es @ [e]) v \<and> path_time g 0 (es @ [e]) = d"
    using es e by (auto simp: is_walk_append path_time_snoc v_def d_def)
  have "\<exists>fs. is_walk g s fs x \<and> path_time g 0 fs = dist_s (relax g u st e) ! x"
    if x: "x < nv g" "dist_s (relax g u st e) ! x \<noteq> INF_c" for x
  proof (cases "pos (heap_s st) ! v \<noteq> - 1 \<and> d < dist_s st ! v \<and> x = v")
    case True
    then have "dist_s (relax g u st e) ! x = d"
      using len v by (simp add: ds)
    then show ?thesis using walk True by auto
  next
    case False
    then have "dist_s (relax g u st e) ! x = dist_s st ! x"
      by (auto simp: ds)
    then show ?thesis using tinvD [OF ti x(1)] x(2) by simp
  qed
  then show ?thesis
    unfolding tinv_def by blast
qed

lemma foldl_relax_tinv:
  assumes wf: "wf_graph g" and nn: "nonneg_graph g" and no: "no_overflow g" and u: "u < nv g"
  shows "dinv0 g s st \<Longrightarrow> tinv g s st \<Longrightarrow> set es \<subseteq> set (adj g ! u) \<Longrightarrow>
     pos (heap_s st) ! u = - 1 \<Longrightarrow> 0 \<le> dist_s st ! u \<Longrightarrow> dist_s st ! u \<noteq> INF_c \<Longrightarrow>
     tinv g s (foldl (relax g u) st es)"
proof (induction es arbitrary: st)
  case Nil
  then show ?case by simp
next
  case (Cons e es)
  have e: "e \<in> set (adj g ! u)" "to e < nv g"
    using Cons.prems(3) wf_graph_to [OF wf u] by auto
  note w = dinv0D(3) [OF Cons.prems(1)]
  have 1: "dinv0 g s (relax g u st e)"
    by (rule relax_dinv0 [OF Cons.prems(1) e u Cons.prems(6)])
  have 2: "tinv g s (relax g u st e)"
    by (rule relax_tinv [OF wf nn no Cons.prems(1,2) u e(1) Cons.prems(5,6)])
  have 3: "dist_s (relax g u st e) ! u = dist_s st ! u"
    using relax_dist_closed [OF w e(2) Cons.prems(4)] .
  have 4: "pos (heap_s (relax g u st e)) ! u = - 1"
    using relax_pos_absent [OF w e(2) u] Cons.prems(4) by simp
  have "tinv g s (foldl (relax g u) (relax g u st e) es)"
    using Cons.IH [OF 1 2 _ 4] Cons.prems(3,5,6) 3 by simp
  then show ?case by simp
qed

lemma dijkstra_loop_tinv:
  assumes wf: "wf_graph g" and nn: "nonneg_graph g" and no: "no_overflow g"
  shows "dinv0 g s st \<Longrightarrow> dinv1 g s st \<Longrightarrow> tinv g s st \<Longrightarrow> tinv g s (dijkstra_loop g t st)"
proof (induction "size_h (heap_s st)" arbitrary: st rule: less_induct)
  case less
  show ?case
  proof (cases "size_h (heap_s st) = 0")
    case True
    then show ?thesis using less.prems(3) by (simp add: dijkstra_loop_empty)
  next
    case False
    then have z: "0 < size_h (heap_s st)" by simp
    note i = dinv0D [OF less.prems(1)]
    note x = extract_dinv0 [OF less.prems(1) z]
    define u where "u = vtx (heap_s st) 0"
    define st1 where "st1 = st\<lparr>heap_s := snd (extractMin (heap_s st))\<rparr>"
    have t1: "tinv g s st1"
      using less.prems(3) by (simp add: tinv_def st1_def)
    show ?thesis
    proof (cases "key (heap_s st) 0 = INF_c \<or> u = t")
      case True
      then show ?thesis
        using t1 by (simp add: dijkstra_loop_step [OF i(2) z] u_def st1_def)
    next
      case False
      define st2 where "st2 = foldl (relax g u) st1 (adj g ! u)"
      have un: "u < nv g" using x(2) by (simp add: u_def)
      have d1: "dinv0 g s st1" using x(1) by (simp add: st1_def)
      have cu: "pos (heap_s st1) ! u = - 1" using x(4) by (simp add: st1_def u_def)
      have du: "dist_s st1 ! u \<noteq> INF_c" using x(3) False by (simp add: st1_def u_def)
      have d0: "0 \<le> dist_s st1 ! u"
        using dinv1D(1) [OF less.prems(2) un] by (simp add: st1_def)
      have r1: "rinv g s u {} st1"
        using extract_rinv [OF less.prems(1,2) z] by (simp add: st1_def u_def)
      note f = foldl_relax_dinv0 [OF wf un d1 subset_refl cu du, folded st2_def]
      have d2: "dinv0 g s st2" using f by simp
      have "rinv g s u ({} \<union> set (adj g ! u)) st2"
        unfolding st2_def by (rule foldl_relax_rinv [OF wf nn no un d1 r1 subset_refl du])
      then have i2: "dinv1 g s st2" using rinv_done by simp
      have t2: "tinv g s st2"
        unfolding st2_def by (rule foldl_relax_tinv [OF wf nn no un d1 t1 subset_refl cu d0 du])
      have "size_h (heap_s st2) < size_h (heap_s st)"
        using z by (simp add: st2_def st1_def extractMin_size)
      then have "tinv g s (dijkstra_loop g t st2)"
        using less.hyps d2 i2 t2 by blast
      then show ?thesis
        using False by (simp add: dijkstra_loop_step [OF i(2) z] u_def st1_def st2_def)
    qed
  qed
qed

lemma dijkstra_init_tinv:
  assumes "s < nv g"
  shows "tinv g s (dijkstra_init g s)"
proof -
  note p = dijkstra_init_props [OF assms]
  have "\<exists>es. is_walk g s es v \<and> path_time g 0 es = dist_s (dijkstra_init g s) ! v"
    if "v < nv g" "dist_s (dijkstra_init g s) ! v \<noteq> INF_c" for v
  proof -
    have "v = s"
    proof (rule ccontr)
      assume "v \<noteq> s"
      then have "dist_s (dijkstra_init g s) ! v = INF_c"
        using that(1) by (simp add: p(1))
      then show False using that(2) by simp
    qed
    then have "is_walk g s [] v \<and> path_time g 0 [] = dist_s (dijkstra_init g s) ! v"
      using assms by (simp add: p(1))
    then show ?thesis by blast
  qed
  then show ?thesis
    unfolding tinv_def by blast
qed

lemma dijkstra_search_tinv:
  assumes "wf_graph g" "nonneg_graph g" "no_overflow g" "s < nv g"
  shows "tinv g s (dijkstra_search g s t)"
  unfolding dijkstra_search_def
  by (rule dijkstra_loop_tinv [OF assms(1-3) dijkstra_init_dinv0 [OF assms(4)]
        dijkstra_init_dinv1(1) [OF assms(4)] dijkstra_init_tinv [OF assms(4)]])

lemma simple_path_walk: "simple_path g u es v \<Longrightarrow> is_walk g u es v"
  by (simp add: simple_path_def)

lemma dijkstra_search_least:
  assumes wf: "wf_graph g" and nn: "nonneg_graph g" and no: "no_overflow g"
    and s: "s < nv g" and t: "t < nv g"
    and n: "dist_s (dijkstra_search g s t) ! t \<noteq> INF_c"
  shows "least_time g s t (dist_s (dijkstra_search g s t) ! t)"
proof -
  define d where "d = dist_s (dijkstra_search g s t) ! t"
  obtain es where es: "is_walk g s es t" "path_time g 0 es = d"
    using tinvD [OF dijkstra_search_tinv [OF wf nn no s] t n] by (auto simp: d_def)
  obtain fs where fs: "simple_path g s fs t" "path_time g 0 fs \<le> path_time g 0 es"
    using walk_to_simple_path [OF wf nn no s es(1), of 0] by auto
  have lb: "d \<le> path_time g 0 ps" if "simple_path g s ps t" for ps
    unfolding d_def by (rule dijkstra_search_lower [OF wf nn no s t simple_path_walk [OF that]])
  have "path_time g 0 fs = d"
    using lb [OF fs(1)] fs(2) es(2) by simp
  then show ?thesis
    unfolding least_time_def d_def [symmetric] using fs(1) lb by blast
qed

lemma dijkstra_search_slow:
  assumes wf: "wf_graph g" and nn: "nonneg_graph g" and no: "no_overflow g"
    and s: "s < nv g" and t: "t < nv g"
    and slow: "\<not> (\<exists>es. simple_path g s es t \<and> path_time g 0 es < INF_c)"
  shows "dist_s (dijkstra_search g s t) ! t = INF_c"
proof (rule ccontr)
  assume n: "dist_s (dijkstra_search g s t) ! t \<noteq> INF_c"
  obtain es where es: "is_walk g s es t" "path_time g 0 es = dist_s (dijkstra_search g s t) ! t"
    using tinvD [OF dijkstra_search_tinv [OF wf nn no s] t n] by auto
  have "dist_s (dijkstra_search g s t) ! t \<le> INF_c"
    by (rule dinv0D(5) [OF dijkstra_search_dinv0 [OF wf s] t])
  then have lt: "path_time g 0 es < INF_c"
    using n es(2) by simp
  obtain fs where "simple_path g s fs t" "path_time g 0 fs \<le> path_time g 0 es"
    using walk_to_simple_path [OF wf nn no s es(1), of 0] by auto
  then show False
    using slow lt by force
qed

text \<open>
  Claim C1, as stated: for non-negative weights and durations the distance computed by
  \<^verbatim>\<open>dijkstra\<close> is the minimum travel time over the simple paths. It fails in two ways.
  Where that minimum reaches the sentinel: with one road of weight 1000000 between two
  junctions whose signal is always green, the minimum is 1000000, but the candidate is not
  below 999999, the distance of the destination stays 999999 and no shortest time is
  reported. And where a sum leaves the range of \<^verbatim>\<open>int\<close>: with one road of weight
  2147483647 into a junction with the phases 10, 5 and 2 the traveller waits 9 and the
  minimum is 2147483656, but the \<^verbatim>\<open>int\<close> sum is -2147483640, which is stored and reported.
\<close>

theorem dijkstra_least_time_counterexample:
  "wf_graph graph_far_road \<and> nonneg_graph graph_far_road
   \<and> (0::int) \<le> 0 \<and> 0 < vertices graph_far_road
   \<and> (0::int) \<le> 1 \<and> 1 < vertices graph_far_road
   \<and> least_time graph_far_road (nat 0) (nat 1) 1000000
   \<and> dist_s (dijkstra_search graph_far_road (nat 0) (nat 1)) ! nat 1 = 999999
   \<and> reported_time (dijkstra True graph_far_road 0 1) = None
   \<and> wf_graph graph_wide_road \<and> nonneg_graph graph_wide_road
   \<and> 0 < vertices graph_wide_road \<and> 1 < vertices graph_wide_road
   \<and> least_time graph_wide_road (nat 0) (nat 1) 2147483656
   \<and> reported_time (dijkstra True graph_wide_road 0 1) = Some (- 2147483640)"
proof -
  have far: "least_time g 0 1 d"
    if wf: "wf_graph g" and nn: "nonneg_graph g" and v: "vertices g = 2"
      and a: "adj g ! 0 = [e]" and e: "to e = 1" and c1: "path_time g 0 [e] = d" and d: "0 \<le> d"
    for g e d
  proof -
    have sp: "simple_path g 0 [e] 1"
      by (simp add: simple_path_def a e)
    have lb: "d \<le> path_time g 0 es" if "simple_path g 0 es 1" for es
    proof -
      have "is_walk g 0 es 1" using that by (rule simple_path_walk)
      then obtain fs where es: "es = e # fs" "is_walk g 1 fs 1"
        by (cases es) (auto simp: a e)
      have p0: "0 \<le> path_time g 0 [e]"
        using d by (simp only: c1)
      have n1: "1 < nv g"
        by (simp add: nv_def v)
      have "path_time g 0 [e] \<le> path_time g (path_time g 0 [e]) fs"
        by (rule path_time_ge [OF wf nn n1 es(2) p0])
      moreover have "path_time g 0 es = path_time g (path_time g 0 [e]) fs"
        by (simp add: es(1))
      ultimately show ?thesis
        using c1 by linarith
    qed
    show ?thesis
      unfolding least_time_def using sp c1 lb by auto
  qed
  have wf: "wf_graph graph_far_road"
    by code_simp
  have nn: "nonneg_graph graph_far_road"
    by code_simp
  have v: "vertices graph_far_road = 2"
    by (simp add: graph_far_road_def example_graph_def)
  have a: "adj graph_far_road ! 0 = [\<lparr>to = 1, weight = 1000000\<rparr>]"
    by (simp add: graph_far_road_def example_graph_def)
  have c1: "path_time graph_far_road 0 [\<lparr>to = 1, weight = 1000000\<rparr>] = 1000000"
    by code_simp
  have lt: "least_time graph_far_road (nat 0) (nat 1) 1000000"
    using far [OF wf nn v a _ c1] by simp
  have d: "dist_s (dijkstra_search graph_far_road (nat 0) (nat 1)) ! nat 1 = 999999"
    by code_simp
  have o: "reported_time (dijkstra True graph_far_road 0 1) = None"
    by code_simp
  have wf': "wf_graph graph_wide_road"
    by code_simp
  have nn': "nonneg_graph graph_wide_road"
    by code_simp
  have v': "vertices graph_wide_road = 2"
    by (simp add: graph_wide_road_def example_graph_def)
  have a': "adj graph_wide_road ! 0 = [\<lparr>to = 1, weight = 2147483647\<rparr>]"
    by (simp add: graph_wide_road_def example_graph_def)
  have c1': "path_time graph_wide_road 0 [\<lparr>to = 1, weight = 2147483647\<rparr>] = 2147483656"
    by code_simp
  have lt': "least_time graph_wide_road (nat 0) (nat 1) 2147483656"
    using far [OF wf' nn' v' a' _ c1'] by simp
  have o': "reported_time (dijkstra True graph_wide_road 0 1) = Some (- 2147483640)"
    by code_simp
  show ?thesis
    using wf nn lt d o wf' nn' lt' o' by (simp add: v v')
qed

text \<open>
  Claim C1, amended: take a graph with non-negative edge weights and signal phase durations
  in which, for every road, the weight plus the whole cycle of the junction entered is at
  most 2147483647 - 999999 (so that no sum of the search leaves the range of \<^verbatim>\<open>int\<close>),
  and an in-range source and destination. If some simple path from the source to the
  destination has a travel time below 999999, then \<^verbatim>\<open>dijkstra\<close> reports a shortest time and
  it is the minimum, over all simple paths, of the sum of the edge weights and of the waits
  at the junctions entered, each wait computed from the arrival time accumulated along that
  path; if no simple path is that fast, \<^verbatim>\<open>dijkstra\<close> reports "no path".
\<close>

theorem dijkstra_least_time:
  assumes "wf_graph g" and "nonneg_graph g" and "no_overflow g"
    and "0 \<le> src" "src < vertices g" "0 \<le> dest" "dest < vertices g"
  shows "((\<exists>es. simple_path g (nat src) es (nat dest) \<and> path_time g 0 es < INF_c) \<longrightarrow>
            (\<exists>d. reported_time (dijkstra fp g src dest) = Some d \<and> least_time g (nat src) (nat dest) d))
         \<and> (\<not> (\<exists>es. simple_path g (nat src) es (nat dest) \<and> path_time g 0 es < INF_c) \<longrightarrow>
            dijkstra fp g src dest = NoPathFound (exportLeafletMap fp g [0] 0))"
proof -
  define s where "s = nat src"
  define t where "t = nat dest"
  define d where "d = dist_s (dijkstra_search g s t) ! t"
  have s: "s < nv g" and t: "t < nv g"
    using assms(4-7) by (simp_all add: s_def t_def nat_less_nv)
  note out = dijkstra_outcome [OF assms(4-7), of fp, folded s_def t_def, folded d_def]
  have fast: "\<exists>d. reported_time (dijkstra fp g src dest) = Some d \<and> least_time g s t d"
    if ex: "\<exists>es. simple_path g s es t \<and> path_time g 0 es < INF_c"
  proof -
    obtain es where es: "simple_path g s es t" "path_time g 0 es < INF_c"
      using ex by blast
    have "d \<le> path_time g 0 es"
      unfolding d_def by (rule dijkstra_search_lower [OF assms(1-3) s t simple_path_walk [OF es(1)]])
    then have n: "d \<noteq> INF_c" using es(2) by simp
    then have "reported_time (dijkstra fp g src dest) = Some d"
      by (simp add: out)
    moreover have "least_time g s t d"
      unfolding d_def by (rule dijkstra_search_least [OF assms(1-3) s t n [unfolded d_def]])
    ultimately show ?thesis by blast
  qed
  have slow: "dijkstra fp g src dest = NoPathFound (exportLeafletMap fp g [0] 0)"
    if no: "\<not> (\<exists>es. simple_path g s es t \<and> path_time g 0 es < INF_c)"
  proof -
    have "d = INF_c"
      unfolding d_def by (rule dijkstra_search_slow [OF assms(1-3) s t no])
    then show ?thesis by (simp add: out)
  qed
  show ?thesis
    unfolding s_def [symmetric] t_def [symmetric] using fast slow by blast
qed

theorem dijkstra_least_time_witness:
  "wf_graph graph_triangle \<and> nonneg_graph graph_triangle \<and> no_overflow graph_triangle
   \<and> (0::int) \<le> 0 \<and> 0 < vertices graph_triangle
   \<and> (0::int) \<le> 2 \<and> 2 < vertices graph_triangle
   \<and> simple_path graph_triangle (nat 0) [\<lparr>to = 1, weight = 4\<rparr>, \<lparr>to = 2, weight = 4\<rparr>] (nat 2)
   \<and> path_time graph_triangle 0 [\<lparr>to = 1, weight = 4\<rparr>, \<lparr>to = 2, weight = 4\<rparr>] < INF_c
   \<and> reported_time (dijkstra True graph_triangle 0 2) = Some 8
   \<and> least_time graph_triangle (nat 0) (nat 2) 8
   \<and> wf_graph graph_islands \<and> nonneg_graph graph_islands \<and> no_overflow graph_islands
   \<and> 0 < vertices graph_islands \<and> (0::int) \<le> 1 \<and> 1 < vertices graph_islands
   \<and> \<not> (\<exists>es. simple_path graph_islands (nat 0) es (nat 1) \<and> path_time graph_islands 0 es < INF_c)
   \<and> dijkstra True graph_islands 0 1 = NoPathFound (exportLeafletMap True graph_islands [0] 0)"
proof -
  have wf: "wf_graph graph_triangle"
    by code_simp
  have nn: "nonneg_graph graph_triangle"
    by code_simp
  have no: "no_overflow graph_triangle"
    by code_simp
  have v: "vertices graph_triangle = 3"
    by (simp add: graph_triangle_def example_graph_def)
  have sp: "simple_path graph_triangle (nat 0) [\<lparr>to = 1, weight = 4\<rparr>, \<lparr>to = 2, weight = 4\<rparr>] (nat 2)"
    by code_simp
  have pt: "path_time graph_triangle 0 [\<lparr>to = 1, weight = 4\<rparr>, \<lparr>to = 2, weight = 4\<rparr>] < INF_c"
    by code_simp
  have r: "reported_time (dijkstra True graph_triangle 0 2) = Some 8"
    by code_simp
  have rg: "(0::int) \<le> 0" "0 < vertices graph_triangle" "(0::int) \<le> 2"
    "2 < vertices graph_triangle"
    by (simp_all add: v)
  have ex: "\<exists>es. simple_path graph_triangle (nat 0) es (nat 2) \<and> path_time graph_triangle 0 es < INF_c"
    using sp pt by blast
  have "\<exists>d. reported_time (dijkstra True graph_triangle 0 2) = Some d \<and> least_time graph_triangle (nat 0) (nat 2) d"
    by (rule dijkstra_least_time [OF wf nn no rg, THEN conjunct1, THEN mp, OF ex])
  then have lt: "least_time graph_triangle (nat 0) (nat 2) 8"
    using r by simp
  have wf': "wf_graph graph_islands"
    by code_simp
  have nn': "nonneg_graph graph_islands"
    by code_simp
  have no': "no_overflow graph_islands"
    by code_simp
  have v': "vertices graph_islands = 2"
    by (simp add: graph_islands_def example_graph_def)
  have a': "adj graph_islands ! 0 = []"
    by (simp add: graph_islands_def example_graph_def)
  have rg': "(0::int) \<le> 0" "0 < vertices graph_islands" "(0::int) \<le> 1"
    "1 < vertices graph_islands"
    by (simp_all add: v')
  have no_sp: "\<not> (\<exists>es. simple_path graph_islands (nat 0) es (nat 1) \<and> path_time graph_islands 0 es < INF_c)"
  proof
    assume "\<exists>es. simple_path graph_islands (nat 0) es (nat 1) \<and> path_time graph_islands 0 es < INF_c"
    then obtain es where "is_walk graph_islands 0 es 1"
      by (auto simp: simple_path_def)
    then show False
      by (cases es) (simp_all add: a')
  qed
  have np: "dijkstra True graph_islands 0 1 = NoPathFound (exportLeafletMap True graph_islands [0] 0)"
    by (rule dijkstra_least_time [OF wf' nn' no' rg', THEN conjunct2, THEN mp, OF no_sp])
  show ?thesis
    by (intro conjI wf nn no rg sp pt r lt wf' nn' no' rg'(2,3,4) no_sp np)
qed

section \<open>Properties of snapshot save and load\<close>

lemma isdigit_digit_char: "k < 10 \<Longrightarrow> isdigit (digit_char k)"
  by (simp add: isdigit_def digit_char_def)


lemma isspace_not_digit: "isspace c \<Longrightarrow> \<not> isdigit c"
  by (auto simp: isspace_def isdigit_def)

lemma digit_not_space: "isdigit c \<Longrightarrow> \<not> isspace c"
  using isspace_not_digit by blast

lemma isspace_nl [simp]: "isspace nl" and isspace_blank [simp]: "isspace CHR '' ''"
  by (simp_all add: isspace_def nl_def)

lemma minus_not_space [simp]: "\<not> isspace CHR ''-''" and minus_not_digit [simp]: "\<not> isdigit CHR ''-''"
  by (simp_all add: isspace_def isdigit_def)

lemma show_nat_digits: "c \<in> set (show_nat n) \<Longrightarrow> isdigit c"
proof (induction n arbitrary: c rule: show_nat.induct)
  case (1 n)
  show ?case
  proof (cases "n < 10")
    case True
    then show ?thesis
      using "1.prems" isdigit_digit_char [of n] by (subst (asm) show_nat.simps) simp
  next
    case False
    then have "c \<in> set (show_nat (n div 10)) \<or> c = digit_char (n mod 10)"
      using "1.prems" by (subst (asm) show_nat.simps) auto
    then show ?thesis
      using "1.IH" [OF False] isdigit_digit_char [of "n mod 10"] by auto
  qed
qed

lemma show_nat_nonempty: "show_nat n \<noteq> []"
  by (subst show_nat.simps) simp








lemma show_int_head: "show_int i \<noteq> [] \<and> \<not> isspace (hd (show_int i))"
proof (cases "i < 0")
  case True
  then show ?thesis by (simp add: show_int_def)
next
  case False
  have "isdigit (hd (show_nat (nat i)))"
    using show_nat_digits [of _ "nat i"] show_nat_nonempty [of "nat i"]
    by (cases "show_nat (nat i)") auto
  then show ?thesis
    using False show_nat_nonempty [of "nat i"] digit_not_space by (simp add: show_int_def)
qed










lemma edge_eta: "\<lparr>to = to p, weight = weight p\<rparr> = (p :: Edge)"
  by (cases p) simp





lemma put_road_fields [simp]:
  "vertices (put_road g x) = vertices g" "names (put_road g x) = names g"
  "lights (put_road g x) = lights g" "lat (put_road g x) = lat g" "lon (put_road g x) = lon g"
  "length (adj (put_road g x)) = length (adj g)"
  by (simp_all add: put_road_def Let_def)

lemma foldl_put_road_fields [simp]:
  "vertices (foldl put_road g es) = vertices g" "names (foldl put_road g es) = names g"
  "lights (foldl put_road g es) = lights g" "lat (foldl put_road g es) = lat g"
  "lon (foldl put_road g es) = lon g" "length (adj (foldl put_road g es)) = length (adj g)"
  by (induction es arbitrary: g) simp_all














lemma undirected_sym:
  assumes wf: "wf_graph g" and un: "undirected g" and y: "y < nv g" and u: "u < nv g"
  shows "count_list (adj g ! y) \<lparr>to = u, weight = w\<rparr> = count_list (adj g ! u) \<lparr>to = y, weight = w\<rparr>"
proof -
  define q where "q = \<lparr>to = u, weight = w\<rparr>"
  define q' where "q' = \<lparr>to = y, weight = w\<rparr>"
  have t: "twin y q = q'" "twin u q' = q" "to q = u" "to q' = y"
    by (simp_all add: twin_def q_def q'_def)
  have 1: "count_list (adj g ! y) q = count_list (adj g ! u) q'" if "q \<in> set (adj g ! y)"
    using un y that t unfolding undirected_def by metis
  have 2: "count_list (adj g ! u) q' = count_list (adj g ! y) q" if "q' \<in> set (adj g ! u)"
    using un u that t unfolding undirected_def by metis
  show ?thesis
    unfolding q_def [symmetric] q'_def [symmetric]
  proof (cases "q \<in> set (adj g ! y)")
    case True
    then show "count_list (adj g ! y) q = count_list (adj g ! u) q'" by (rule 1)
  next
    case False
    show "count_list (adj g ! y) q = count_list (adj g ! u) q'"
    proof (cases "q' \<in> set (adj g ! u)")
      case True
      then show ?thesis using 2 by simp
    next
      case no: False
      then show ?thesis using False by (simp add: count_list_0_iff)
    qed
  qed
qed


text \<open>
  The graphs that the program builds are undirected: \<^verbatim>\<open>initGraph\<close> leaves no junction, and
  \<^verbatim>\<open>addEdge\<close> inserts an entry together with its twin.
\<close>

lemma addEdge_adj:
  assumes "length (adj g) = MAX_c" "vertices g \<le> int MAX_c"
    and "0 \<le> u" "u < vertices g" "0 \<le> v" "v < vertices g" and "x < MAX_c"
  shows "adj (snd (addEdge g u v w)) ! x =
           (if x = nat v then [\<lparr>to = nat u, weight = w\<rparr>] else [])
           @ (if x = nat u then [\<lparr>to = nat v, weight = w\<rparr>] else [])
           @ adj g ! x"
    and "vertices (snd (addEdge g u v w)) = vertices g"
proof -
  have "nat u < length (adj g) \<and> nat v < length (adj g)"
    using assms by auto
  then show "adj (snd (addEdge g u v w)) ! x =
           (if x = nat v then [\<lparr>to = nat u, weight = w\<rparr>] else [])
           @ (if x = nat u then [\<lparr>to = nat v, weight = w\<rparr>] else [])
           @ adj g ! x"
    using assms(3-6) by (auto simp: addEdge_def Let_def newEdge_def nth_list_update)
  show "vertices (snd (addEdge g u v w)) = vertices g"
    by (simp add: addEdge_def Let_def)
qed

lemma addEdge_undirected:
  assumes wf: "wf_graph g" and un: "undirected g"
    and r: "0 \<le> u" "u < vertices g" "0 \<le> v" "v < vertices g"
  shows "undirected (snd (addEdge g u v w))"
proof -
  define g' where "g' = snd (addEdge g u v w)"
  define a where "a = nat u"
  define b where "b = nat v"
  have l: "length (adj g) = MAX_c" "vertices g \<le> int MAX_c"
    using wf by (simp_all add: wf_graph_def)
  have n: "nv g' = nv g"
    using addEdge_adj(2) [OF l r, of 0 w] by (simp add: nv_def g'_def MAX_c_def)
  have ab: "a < nv g" "b < nv g"
    using r by (simp_all add: a_def b_def nv_def)
  have nm: "nv g \<le> MAX_c"
    using l(2) by (simp add: nv_def nat_le_iff)
  have ad: "adj g' ! x = (if x = b then [\<lparr>to = a, weight = w\<rparr>] else [])
           @ (if x = a then [\<lparr>to = b, weight = w\<rparr>] else []) @ adj g ! x" if "x < nv g" for x
    using addEdge_adj(1) [OF l r, of x w] that nm by (simp add: g'_def a_def b_def)
  have "count_list (adj g' ! x) p = count_list (adj g' ! to p) (twin x p)"
    if x: "x < nv g" and p: "p \<in> set (adj g' ! x)" for x p
  proof -
    have tp: "to p < nv g"
      using p ab wf_graph_to [OF wf x, of p] by (auto simp: ad [OF x] split: if_splits)
    have base: "count_list (adj g ! x) p = count_list (adj g ! to p) (twin x p)"
      using undirected_sym [OF wf un x tp, of "weight p"] by (simp add: edge_eta twin_def)
    have e1: "p = \<lparr>to = a, weight = w\<rparr> \<longleftrightarrow> to p = a \<and> weight p = w"
      and e2: "p = \<lparr>to = b, weight = w\<rparr> \<longleftrightarrow> to p = b \<and> weight p = w"
      by (cases p; auto)+
    show ?thesis
      using base by (auto simp: ad [OF x] ad [OF tp] e1 e2 twin_def)
  qed
  then show ?thesis
    unfolding undirected_def g'_def [symmetric] n by blast
qed

lemma initGraph_undirected: "undirected (initGraph g)"
  by (simp add: undirected_def initGraph_def nv_def)






end
